theory Spec2Isabelle
  imports Main
begin

section \<open>The users app of InvenTree: tokens, rule sets, owners and profiles\<close>

text \<open>
  A shallow embedding of \<^verbatim>\<open>src/backend/InvenTree/users/models.py\<close>. Model instances are
  records, the database is a record of tables (lists of rows, in table order), every
  exception the source can raise is a value of \<open>error\<close>, and a function that writes to the
  database returns the new database.
\<close>

datatype error =
    AttributeError
  | ValueError
  | IndexError
  | KeyError
  | NameError
  | TypeError
  | IntegrityError
  | MultipleObjectsReturned
  | Permission_DoesNotExist
  | RelatedObjectDoesNotExist
  | DoesNotExist

subsection \<open>Strings\<close>

text \<open>Python's \<^verbatim>\<open>s.split(sep)\<close> for a one-character separator: never empty.\<close>

fun split_str :: "char \<Rightarrow> string \<Rightarrow> string list" where
  "split_str sep [] = [[]]"
| "split_str sep (c # cs) =
     (if c = sep then [] # split_str sep cs
      else (case split_str sep cs of
              [] \<Rightarrow> [[c]]
            | w # ws \<Rightarrow> (c # w) # ws))"

text \<open>Python's \<^verbatim>\<open>sep.join(parts)\<close>.\<close>

fun join_str :: "string \<Rightarrow> string list \<Rightarrow> string" where
  "join_str sep [] = []"
| "join_str sep [w] = w"
| "join_str sep (w # ws) = w @ sep @ join_str sep ws"

text \<open>Python's \<^verbatim>\<open>str(n)\<close> for a non-negative integer (a primary key).\<close>

definition digit_char :: "nat \<Rightarrow> char" where
  "digit_char d = ''0123456789'' ! d"

function str_nat :: "nat \<Rightarrow> string" where
  "str_nat n = (if n < 10 then [digit_char n] else str_nat (n div 10) @ [digit_char (n mod 10)])"
  by pat_completeness auto
termination
  by (relation "measure (\<lambda>n. n)") auto

subsection \<open>ApiToken\<close>

text \<open>
  Of the token model only the primary key (\<open>None\<close> until the token is saved) and the key
  are read by the \<^verbatim>\<open>token\<close> property.
\<close>

record ApiToken =
  token_pk :: "nat option"
  key :: string
  revoked :: bool

text \<open>
  \<^verbatim>\<open>
  if self.pk is None: return self.key
  M = len(self.key) - 20
  return self.key[:8] + '*' * M + self.key[-12:]
  \<close>
  \<open>M\<close> is a Python integer and may be negative, where \<^verbatim>\<open>'*' * M\<close> is the empty string;
  \<^verbatim>\<open>key[:8]\<close> is at most the first eight characters; \<^verbatim>\<open>key[-12:]\<close> starts at
  \<open>max 0 (len - 12)\<close>, which is the truncating subtraction of \<open>nat\<close>.
\<close>

definition token :: "ApiToken \<Rightarrow> string" where
  "token self =
     (if token_pk self = None then key self
      else
        let M = int (length (key self)) - 20
        in take 8 (key self) @ replicate (nat M) (CHR ''*'')
             @ drop (length (key self) - 12) (key self))"

subsection \<open>Rows and the database\<close>

type_synonym uid = nat
type_synonym gid = nat

text \<open>A content type is identified by its natural key \<open>(app_label, model)\<close>.\<close>

type_synonym content_type = "string \<times> string"

record User =
  user_pk :: uid
  is_superuser :: bool

record Permission =
  codename :: string
  app_label :: string
  model :: string

record RuleSet =
  rs_pk :: "nat option"
  name :: string
  group :: gid
  can_view :: bool
  can_add :: bool
  can_change :: bool
  can_delete :: bool

record Owner =
  owner_pk :: nat
  owner_type :: "content_type option"
  owner_id :: "nat option"

record UserProfile =
  profile_user :: uid
  primary_group :: "gid option"

text \<open>
  What a signal receiver or \<^verbatim>\<open>Owner.create\<close> is handed: a \<^verbatim>\<open>User\<close>, a \<^verbatim>\<open>Group\<close>, or an
  instance of another model (given by its content type and primary key).
\<close>

datatype model_instance =
    User_instance uid
  | Group_instance gid
  | Other_instance content_type nat

text \<open>The \<^verbatim>\<open>action\<close> argument of Django's \<^verbatim>\<open>m2m_changed\<close> signal.\<close>

datatype m2m_action = pre_add | post_add | pre_remove | post_remove | pre_clear | post_clear

text \<open>
  The database and the process-wide settings the source reads. \<open>session_cache\<close> is
  modelled from the spec: the cache collaborator is a key-value store with
  \<^verbatim>\<open>get(key)\<close> returning the value or nothing and \<^verbatim>\<open>set(key, value)\<close>
  (\<^verbatim>\<open>InvenTree.cache\<close> is not part of the reviewed sources); it is kept as an association
  list whose first entry for a key is the current one. \<open>importing_data\<close> and
  \<open>can_access_database\<close> stand for \<^verbatim>\<open>isImportingData()\<close> and
  \<^verbatim>\<open>canAppAccessDatabase(allow_test=True)\<close> of \<^verbatim>\<open>InvenTree.ready\<close>.
\<close>

record db =
  site_multi :: bool
  importing_data :: bool
  can_access_database :: bool
  auth_users :: "User list"
  auth_groups :: "gid list"
  user_groups :: "(uid \<times> gid) list"
  content_types :: "content_type list"
  auth_permissions :: "Permission list"
  group_permissions :: "(gid \<times> Permission) list"
  rule_sets :: "RuleSet list"
  owners :: "Owner list"
  other_objects :: "(content_type \<times> nat) list"
  profiles :: "UserProfile list"
  session_cache :: "(string \<times> bool) list"

subsection \<open>Loops that may raise\<close>

text \<open>A \<^verbatim>\<open>for\<close> loop whose body may raise: the first exception ends the loop.\<close>

fun for_each :: "('a \<Rightarrow> 's \<Rightarrow> error + 's) \<Rightarrow> 'a list \<Rightarrow> 's \<Rightarrow> error + 's" where
  "for_each body [] s = Inr s"
| "for_each body (x # xs) s =
     (case body x s of Inl e \<Rightarrow> Inl e | Inr s' \<Rightarrow> for_each body xs s')"

text \<open>
  Saving a group runs \<^verbatim>\<open>update_group_roles\<close>, which may create a rule set, whose
  \<^verbatim>\<open>save\<close> saves the group again. The functions on this cycle carry a bound on the depth
  of that recursion; \<open>None\<close> says the bound was reached, \<open>Some (Inl e)\<close> that \<open>e\<close> was raised.
\<close>

definition bind_deep :: "(error + 'a) option \<Rightarrow> ('a \<Rightarrow> (error + 'b) option) \<Rightarrow> (error + 'b) option" where
  "bind_deep m f = (case m of None \<Rightarrow> None | Some (Inl e) \<Rightarrow> Some (Inl e) | Some (Inr x) \<Rightarrow> f x)"

fun for_each_deep ::
  "('a \<Rightarrow> 's \<Rightarrow> (error + 's) option) \<Rightarrow> 'a list \<Rightarrow> 's \<Rightarrow> (error + 's) option" where
  "for_each_deep body [] s = Some (Inr s)"
| "for_each_deep body (x # xs) s = bind_deep (body x s) (for_each_deep body xs)"

subsection \<open>The rule table\<close>

definition RULESET_CHOICES :: "(string \<times> string) list" where
  "RULESET_CHOICES =
     [(''admin'', ''Admin''),
      (''part_category'', ''Part Categories''),
      (''part'', ''Parts''),
      (''stocktake'', ''Stocktake''),
      (''stock_location'', ''Stock Locations''),
      (''stock'', ''Stock Items''),
      (''build'', ''Build Orders''),
      (''purchase_order'', ''Purchase Orders''),
      (''sales_order'', ''Sales Orders''),
      (''return_order'', ''Return Orders'')]"

definition RULESET_NAMES :: "string list" where
  "RULESET_NAMES = map fst RULESET_CHOICES"

definition RULESET_PERMISSIONS :: "string list" where
  "RULESET_PERMISSIONS = [''view'', ''add'', ''change'', ''delete'']"

text \<open>The dictionary of \<^verbatim>\<open>get_ruleset_models\<close>, in the order it is written.\<close>

definition get_ruleset_models :: "bool \<Rightarrow> (string \<times> string list) list" where
  "get_ruleset_models multi =
     [
       (''admin'',
        [
          ''auth_group'', ''auth_user'', ''auth_permission'', ''users_apitoken'',
          ''users_ruleset'', ''report_labeltemplate'', ''report_reportasset'',
          ''report_reportsnippet'', ''report_reporttemplate'', ''account_emailaddress'',
          ''account_emailconfirmation'', ''socialaccount_socialaccount'',
          ''socialaccount_socialapp'', ''socialaccount_socialtoken'',
          ''otp_totp_totpdevice'', ''otp_static_statictoken'', ''otp_static_staticdevice'',
          ''mfa_authenticator'', ''plugin_pluginconfig'', ''plugin_pluginsetting'',
          ''plugin_notificationusersetting'', ''common_barcodescanresult'',
          ''common_newsfeedentry'', ''taggit_tag'', ''taggit_taggeditem'',
          ''flags_flagstate'', ''machine_machineconfig'', ''machine_machinesetting''
        ] @ (if multi then [''sites_site''] else [])),
       (''part_category'',
        [
          ''part_partcategory'', ''part_partcategoryparametertemplate'',
          ''part_partcategorystar''
        ]),
       (''part'',
        [
          ''part_part'', ''part_partpricing'', ''part_bomitem'',
          ''part_bomitemsubstitute'', ''part_partsellpricebreak'',
          ''part_partinternalpricebreak'', ''part_parttesttemplate'',
          ''part_partparametertemplate'', ''part_partparameter'', ''part_partrelated'',
          ''part_partstar'', ''part_partcategorystar'', ''company_supplierpart'',
          ''company_manufacturerpart'', ''company_manufacturerpartparameter''
        ]),
       (''stocktake'',
        [
          ''part_partstocktake'', ''part_partstocktakereport''
        ]),
       (''stock_location'',
        [
          ''stock_stocklocation'', ''stock_stocklocationtype''
        ]),
       (''stock'',
        [
          ''stock_stockitem'', ''stock_stockitemtracking'', ''stock_stockitemtestresult''
        ]),
       (''build'',
        [
          ''part_part'', ''part_partcategory'', ''part_bomitem'',
          ''part_bomitemsubstitute'', ''build_build'', ''build_builditem'',
          ''build_buildline'', ''stock_stockitem'', ''stock_stocklocation''
        ]),
       (''purchase_order'',
        [
          ''company_company'', ''company_contact'', ''company_address'',
          ''company_manufacturerpart'', ''company_manufacturerpartparameter'',
          ''company_supplierpart'', ''company_supplierpricebreak'',
          ''order_purchaseorder'', ''order_purchaseorderlineitem'',
          ''order_purchaseorderextraline''
        ]),
       (''sales_order'',
        [
          ''company_company'', ''company_contact'', ''company_address'',
          ''order_salesorder'', ''order_salesorderallocation'',
          ''order_salesorderlineitem'', ''order_salesorderextraline'',
          ''order_salesordershipment''
        ]),
       (''return_order'',
        [
          ''company_company'', ''company_contact'', ''company_address'',
          ''order_returnorder'', ''order_returnorderlineitem'',
          ''order_returnorderextraline''
        ])
     ]"

definition get_ruleset_ignore :: "string list" where
  "get_ruleset_ignore =
     [
       ''admin_logentry'', ''contenttypes_contenttype'', ''common_attachment'',
       ''common_customunit'', ''common_dataoutput'', ''common_inventreesetting'',
       ''common_inventreeusersetting'', ''common_notificationentry'',
       ''common_notificationmessage'', ''common_notesimage'', ''common_projectcode'',
       ''common_webhookendpoint'', ''common_webhookmessage'',
       ''common_inventreecustomuserstatemodel'', ''common_selectionlistentry'',
       ''common_selectionlist'', ''users_owner'', ''users_userprofile'',
       ''error_report_error'', ''exchange_rate'', ''exchange_exchangebackend'',
       ''usersessions_usersession'', ''sessions_session'', ''django_q_ormq'',
       ''django_q_failure'', ''django_q_task'', ''django_q_schedule'',
       ''django_q_success'', ''importer_dataimportsession'',
       ''importer_dataimportcolumnmap'', ''importer_dataimportrow''
     ]"

definition RULESET_CHANGE_INHERIT :: "(string \<times> string) list" where
  "RULESET_CHANGE_INHERIT = [(''part'', ''partparameter''), (''part'', ''bomitem'')]"

text \<open>\<^verbatim>\<open>self.get_ruleset_models().get(self.name, [])\<close>\<close>

definition get_models :: "bool \<Rightarrow> RuleSet \<Rightarrow> string list" where
  "get_models multi self =
     (case map_of (get_ruleset_models multi) (name self) of None \<Rightarrow> [] | Some ms \<Rightarrow> ms)"

subsection \<open>Permission strings\<close>

text \<open>
  \<^verbatim>\<open>
  *app, model = model.split('_')
  app = '_'.join(app) if len(app) > 1 else app[0]
  return model, app
  \<close>
  \<^verbatim>\<open>app[0]\<close> raises on a name without an underscore.
\<close>

definition split_model :: "string \<Rightarrow> error + (string \<times> string)" where
  "split_model m =
     (let parts = split_str (CHR ''_'') m;
          app = butlast parts;
          mdl = last parts
      in if length app > 1 then Inr (mdl, join_str ''_'' app)
         else (case app of [] \<Rightarrow> Inl IndexError | a # _ \<Rightarrow> Inr (mdl, a)))"

text \<open>
  \<^verbatim>\<open>
  permission_name, *model = perm.split('_')
  if len(model) > 1:
      app += '_' + '_'.join(model[:-1])
      perm = permission_name + '_' + model[-1:][0]
  model = model[-1:][0]
  return perm, model
  \<close>
  The new \<^verbatim>\<open>app\<close> is local and is not returned.
\<close>

definition split_permission :: "string \<Rightarrow> string \<Rightarrow> error + (string \<times> string)" where
  "split_permission app perm =
     (case split_str (CHR ''_'') perm of
        [] \<Rightarrow> Inl ValueError
      | permission_name # mdl \<Rightarrow>
          (let perm' = (if length mdl > 1 then permission_name @ ''_'' @ last mdl else perm)
           in case mdl of [] \<Rightarrow> Inl IndexError | _ # _ \<Rightarrow> Inr (perm', last mdl)))"

definition get_model_permission_string :: "string \<Rightarrow> string \<Rightarrow> error + string" where
  "get_model_permission_string m permission =
     (case split_model m of
        Inl e \<Rightarrow> Inl e
      | Inr (mdl, app) \<Rightarrow> Inr (app @ ''.'' @ permission @ ''_'' @ mdl))"


subsection \<open>Authorization queries\<close>

text \<open>\<^verbatim>\<open>f'role_{user.pk}_{role}_{permission}'\<close>\<close>

definition role_cache_key :: "User \<Rightarrow> string \<Rightarrow> string \<Rightarrow> string" where
  "role_cache_key usr role permission =
     ''role_'' @ str_nat (user_pk usr) @ ''_'' @ role @ ''_'' @ permission"

definition get_session_cache :: "db \<Rightarrow> string \<Rightarrow> bool option" where
  "get_session_cache d k = map_of (session_cache d) k"

definition set_session_cache :: "db \<Rightarrow> string \<Rightarrow> bool \<Rightarrow> db" where
  "set_session_cache d k v = d\<lparr>session_cache := (k, v) # session_cache d\<rparr>"

text \<open>\<^verbatim>\<open>user.groups.all()\<close>, \<^verbatim>\<open>group.user_set.all()\<close> and \<^verbatim>\<open>group.rule_sets.all()\<close>\<close>

definition user_groups_all :: "db \<Rightarrow> uid \<Rightarrow> gid list" where
  "user_groups_all d u = filter (\<lambda>g. (u, g) \<in> set (user_groups d)) (auth_groups d)"

definition group_user_set_all :: "db \<Rightarrow> gid \<Rightarrow> uid list" where
  "group_user_set_all d g = filter (\<lambda>u. (u, g) \<in> set (user_groups d)) (map user_pk (auth_users d))"

definition group_rule_sets_all :: "db \<Rightarrow> gid \<Rightarrow> RuleSet list" where
  "group_rule_sets_all d g = filter (\<lambda>r. group r = g) (rule_sets d)"

text \<open>
  The inner loop of \<^verbatim>\<open>check_user_role\<close> over the rule sets of one group; \<^verbatim>\<open>break\<close> leaves
  it with \<^verbatim>\<open>result = True\<close>.
\<close>

fun rule_sets_loop :: "RuleSet list \<Rightarrow> string \<Rightarrow> string \<Rightarrow> bool \<Rightarrow> bool" where
  "rule_sets_loop [] role permission result = result"
| "rule_sets_loop (rule # rules) role permission result =
     (if name rule = role then
        (if permission = ''add'' \<and> can_add rule then True
         else if permission = ''change'' \<and> can_change rule then True
         else if permission = ''view'' \<and> can_view rule then True
         else if permission = ''delete'' \<and> can_delete rule then True
         else rule_sets_loop rules role permission result)
      else rule_sets_loop rules role permission result)"

text \<open>The outer loop over the user's groups; it is not left early.\<close>

fun groups_loop :: "db \<Rightarrow> gid list \<Rightarrow> string \<Rightarrow> string \<Rightarrow> bool \<Rightarrow> bool" where
  "groups_loop d [] role permission result = result"
| "groups_loop d (g # gs) role permission result =
     groups_loop d gs role permission
       (rule_sets_loop (group_rule_sets_all d g) role permission result)"

definition check_user_role :: "db \<Rightarrow> User option \<Rightarrow> string \<Rightarrow> string \<Rightarrow> bool \<times> db" where
  "check_user_role d user role permission =
     (case user of
        None \<Rightarrow> (False, d)
      | Some usr \<Rightarrow>
          if is_superuser usr then (True, d)
          else
            (let cache_key = role_cache_key usr role permission
             in case get_session_cache d cache_key of
                  Some result \<Rightarrow> (result, d)
                | None \<Rightarrow>
                    (let result = groups_loop d (user_groups_all d (user_pk usr)) role permission False
                     in (result, set_session_cache d cache_key result))))"

text \<open>
  \<^verbatim>\<open>check_user_permission\<close>: \<open>has_perm\<close> is Django's \<^verbatim>\<open>user.has_perm\<close>, taken as a parameter;
  \<open>meta\<close> is \<^verbatim>\<open>(model._meta.app_label, model._meta.model_name)\<close>.
\<close>

definition check_user_permission ::
  "(User \<Rightarrow> string \<Rightarrow> bool) \<Rightarrow> User option \<Rightarrow> string \<times> string \<Rightarrow> string \<Rightarrow> bool" where
  "check_user_permission has_perm user meta permission =
     (case user of
        None \<Rightarrow> False
      | Some usr \<Rightarrow>
          if is_superuser usr then True
          else has_perm usr (fst meta @ ''.'' @ permission @ ''_'' @ snd meta))"

text \<open>The loop of \<^verbatim>\<open>check_table_permission\<close> over \<^verbatim>\<open>RULESET_NAMES\<close>.\<close>

fun roles_loop ::
  "db \<Rightarrow> User option \<Rightarrow> string \<Rightarrow> string \<Rightarrow> string list \<Rightarrow> error + (bool \<times> db)" where
  "roles_loop d user table permission [] = Inr (False, d)"
| "roles_loop d user table permission (role # roles) =
     (case map_of (get_ruleset_models (site_multi d)) role of
        None \<Rightarrow> Inl KeyError
      | Some ms \<Rightarrow>
          if table \<in> set ms then
            (let (result, d1) = check_user_role d user role permission
             in if result then Inr (True, d1)
                else roles_loop d1 user table permission roles)
          else roles_loop d user table permission roles)"

text \<open>Its loop over \<^verbatim>\<open>RULESET_CHANGE_INHERIT\<close>.\<close>

fun inherit_loop ::
  "db \<Rightarrow> User option \<Rightarrow> string \<Rightarrow> (string \<times> string) list \<Rightarrow> bool \<times> db" where
  "inherit_loop d user table [] = (False, d)"
| "inherit_loop d user table ((parent, child) # pairs) =
     (let parent_child_string = parent @ ''_'' @ child
      in if parent_child_string = table then
           (let (result, d1) = check_user_role d user parent ''change''
            in if result then (True, d1)
               else inherit_loop d1 user table pairs)
         else inherit_loop d user table pairs)"

text \<open>
  \<^verbatim>\<open>check_table_permission\<close> reads \<^verbatim>\<open>user.is_superuser\<close> first, which raises
  \<^verbatim>\<open>AttributeError\<close> when \<^verbatim>\<open>user\<close> is \<^verbatim>\<open>None\<close>.
\<close>

definition check_table_permission ::
  "db \<Rightarrow> User option \<Rightarrow> string \<Rightarrow> string \<Rightarrow> error + (bool \<times> db)" where
  "check_table_permission d user table permission =
     (case user of
        None \<Rightarrow> Inl AttributeError
      | Some usr \<Rightarrow>
          if is_superuser usr then Inr (True, d)
          else if table \<in> set get_ruleset_ignore then Inr (True, d)
          else
            (case roles_loop d user table permission RULESET_NAMES of
               Inl e \<Rightarrow> Inl e
             | Inr (result, d1) \<Rightarrow>
                 if result then Inr (True, d1)
                 else Inr (inherit_loop d1 user table RULESET_CHANGE_INHERIT)))"

subsection \<open>Owner\<close>

definition user_content_type :: content_type where
  "user_content_type = (''auth'', ''user'')"

definition group_content_type :: content_type where
  "group_content_type = (''auth'', ''group'')"

definition content_type_of :: "model_instance \<Rightarrow> content_type" where
  "content_type_of obj =
     (case obj of
        User_instance _ \<Rightarrow> user_content_type
      | Group_instance _ \<Rightarrow> group_content_type
      | Other_instance ct _ \<Rightarrow> ct)"

definition pk_of :: "model_instance \<Rightarrow> nat" where
  "pk_of obj = (case obj of User_instance u \<Rightarrow> u | Group_instance g \<Rightarrow> g | Other_instance _ k \<Rightarrow> k)"

text \<open>\<^verbatim>\<open>Owner.objects.get(owner_id=..., owner_type=...)\<close>\<close>

definition Owner_objects_get :: "db \<Rightarrow> nat \<Rightarrow> content_type \<Rightarrow> error + Owner" where
  "Owner_objects_get d oid ct =
     (case filter (\<lambda>ow. owner_id ow = Some oid \<and> owner_type ow = Some ct) (owners d) of
        [] \<Rightarrow> Inl DoesNotExist
      | [ow] \<Rightarrow> Inr ow
      | _ # _ # _ \<Rightarrow> Inl MultipleObjectsReturned)"

text \<open>
  \<^verbatim>\<open>get_owner\<close>: the content type is set only for a \<^verbatim>\<open>Group\<close> or a user instance, and only
  \<^verbatim>\<open>Owner.DoesNotExist\<close> is caught.
\<close>

definition get_owner :: "db \<Rightarrow> model_instance \<Rightarrow> error + Owner option" where
  "get_owner d user_or_group =
     (let content_type_id =
            (case user_or_group of
               Group_instance _ \<Rightarrow> Some group_content_type
             | User_instance _ \<Rightarrow> Some user_content_type
             | Other_instance _ _ \<Rightarrow> None)
      in case content_type_id of
           None \<Rightarrow> Inr None
         | Some ct \<Rightarrow>
             (case Owner_objects_get d (pk_of user_or_group) ct of
                Inr ow \<Rightarrow> Inr (Some ow)
              | Inl e \<Rightarrow> if e = DoesNotExist then Inr None else Inl e))"

text \<open>
  \<^verbatim>\<open>Owner.objects.create(owner=obj)\<close>: the constraint \<^verbatim>\<open>unique_owner\<close> on
  \<^verbatim>\<open>(owner_type, owner_id)\<close> makes the insert raise \<^verbatim>\<open>IntegrityError\<close>.
\<close>

definition Owner_objects_create :: "db \<Rightarrow> model_instance \<Rightarrow> error + (Owner \<times> db)" where
  "Owner_objects_create d obj =
     (let ct = content_type_of obj; oid = pk_of obj
      in if \<exists>ow \<in> set (owners d). owner_type ow = Some ct \<and> owner_id ow = Some oid
         then Inl IntegrityError
         else
           (let ow = \<lparr>owner_pk = Suc (fold max (map owner_pk (owners d)) 0),
                      owner_type = Some ct, owner_id = Some oid\<rparr>
            in Inr (ow, d\<lparr>owners := owners d @ [ow]\<rparr>)))"

text \<open>
  \<^verbatim>\<open>
  existing_owner = cls.get_owner(obj)
  if not existing_owner:
      try: return cls.objects.create(owner=obj)
      except IntegrityError: return None
  return existing_owner
  \<close>
  \<open>concurrent\<close> is what other writers do to the database between the lookup and the
  insert (the identity in a sequential run); it is how a race is expressed here.
\<close>

definition Owner_create ::
  "(db \<Rightarrow> db) \<Rightarrow> db \<Rightarrow> model_instance \<Rightarrow> error + (Owner option \<times> db)" where
  "Owner_create concurrent d obj =
     (case get_owner d obj of
        Inl e \<Rightarrow> Inl e
      | Inr (Some existing_owner) \<Rightarrow> Inr (Some existing_owner, d)
      | Inr None \<Rightarrow>
          (let d1 = concurrent d
           in case Owner_objects_create d1 obj of
                Inr (ow, d2) \<Rightarrow> Inr (Some ow, d2)
              | Inl e \<Rightarrow> if e = IntegrityError then Inr (None, d1) else Inl e))"

text \<open>
  The generic foreign key \<^verbatim>\<open>self.owner\<close>: the referenced object, or \<^verbatim>\<open>None\<close> when a part of
  the reference is null or the referenced row does not exist.
\<close>

definition owner_of :: "db \<Rightarrow> Owner \<Rightarrow> model_instance option" where
  "owner_of d self =
     (case owner_type self of
        None \<Rightarrow> None
      | Some ct \<Rightarrow>
          (case owner_id self of
             None \<Rightarrow> None
           | Some k \<Rightarrow>
               if ct = group_content_type then
                 (if k \<in> set (auth_groups d) then Some (Group_instance k) else None)
               else if ct = user_content_type then
                 (if k \<in> set (map user_pk (auth_users d)) then Some (User_instance k) else None)
               else if (ct, k) \<in> set (other_objects d) then Some (Other_instance ct k)
               else None))"

text \<open>
  \<^verbatim>\<open>get_related_owners\<close>: \<^verbatim>\<open>related_owners\<close> starts as \<^verbatim>\<open>None\<close> and is assigned only under
  \<^verbatim>\<open>type(self.owner) is Group\<close> and \<^verbatim>\<open>type(self.owner) is user_model\<close>.
\<close>

definition get_related_owners :: "db \<Rightarrow> Owner \<Rightarrow> bool \<Rightarrow> Owner list option" where
  "get_related_owners d self include_group =
     (case owner_of d self of
        Some (Group_instance g) \<Rightarrow>
          (let users = group_user_set_all d g
           in Some (filter
                (\<lambda>ow. ((case owner_id ow of None \<Rightarrow> False | Some k \<Rightarrow> k \<in> set users)
                         \<and> owner_type ow = Some user_content_type)
                      \<or> (include_group \<and> owner_id ow = Some g
                           \<and> owner_type ow = Some group_content_type))
                (owners d)))
      | Some (User_instance u) \<Rightarrow> Some [self]
      | Some (Other_instance ct k) \<Rightarrow> None
      | None \<Rightarrow> None)"

text \<open>
  \<^verbatim>\<open>return user_owner in self.get_related_owners(include_group=include_group)\<close>:
  \<^verbatim>\<open>in\<close> on \<^verbatim>\<open>None\<close> raises \<^verbatim>\<open>TypeError\<close>; model instances are equal when their primary
  keys are.
\<close>

definition is_user_allowed :: "db \<Rightarrow> Owner \<Rightarrow> model_instance \<Rightarrow> bool \<Rightarrow> error + bool" where
  "is_user_allowed d self usr include_group =
     (case get_owner d usr of
        Inl e \<Rightarrow> Inl e
      | Inr user_owner \<Rightarrow>
          (case get_related_owners d self include_group of
             None \<Rightarrow> Inl TypeError
           | Some related_owners \<Rightarrow>
               Inr (case user_owner of
                      None \<Rightarrow> False
                    | Some uo \<Rightarrow> owner_pk uo \<in> set (map owner_pk related_owners))))"

text \<open>The receivers \<^verbatim>\<open>create_owner\<close> and \<^verbatim>\<open>delete_owner\<close>.\<close>

definition create_owner :: "db \<Rightarrow> model_instance \<Rightarrow> error + db" where
  "create_owner d inst =
     (if \<not> importing_data d then
        (case Owner_create id d inst of Inl e \<Rightarrow> Inl e | Inr (_, d1) \<Rightarrow> Inr d1)
      else Inr d)"

definition delete_owner :: "db \<Rightarrow> model_instance \<Rightarrow> error + db" where
  "delete_owner d inst =
     (case get_owner d inst of
        Inl e \<Rightarrow> Inl e
      | Inr None \<Rightarrow> Inl AttributeError
      | Inr (Some ow) \<Rightarrow> Inr (d\<lparr>owners := filter (\<lambda>row. owner_pk row \<noteq> owner_pk ow) (owners d)\<rparr>))"

subsection \<open>UserProfile\<close>

text \<open>\<^verbatim>\<open>user.profile\<close> raises when the user has no profile row.\<close>

definition user_profile :: "db \<Rightarrow> uid \<Rightarrow> error + UserProfile" where
  "user_profile d u =
     (case find (\<lambda>p. profile_user p = u) (profiles d) of
        None \<Rightarrow> Inl RelatedObjectDoesNotExist
      | Some p \<Rightarrow> Inr p)"

text \<open>The inherited \<^verbatim>\<open>save\<close>: the row of the profile's user is replaced or inserted.\<close>

definition UserProfile_super_save :: "db \<Rightarrow> UserProfile \<Rightarrow> db" where
  "UserProfile_super_save d self =
     (if \<exists>p \<in> set (profiles d). profile_user p = profile_user self
      then d\<lparr>profiles := map (\<lambda>p. if profile_user p = profile_user self then self else p) (profiles d)\<rparr>
      else d\<lparr>profiles := profiles d @ [self]\<rparr>)"

text \<open>
  \<^verbatim>\<open>
  if self.primary_group and self.primary_group not in self.user.groups.all():
      self.primary_group = None
  super().save(*args, **kwargs)
  \<close>
\<close>

definition UserProfile_save :: "db \<Rightarrow> UserProfile \<Rightarrow> UserProfile \<times> db" where
  "UserProfile_save d self =
     (let self1 =
            (case primary_group self of
               None \<Rightarrow> self
             | Some g \<Rightarrow>
                 if g \<notin> set (user_groups_all d (profile_user self))
                 then self\<lparr>primary_group := None\<rparr> else self)
      in (self1, UserProfile_super_save d self1))"

text \<open>The body of the loop of \<^verbatim>\<open>validate_primary_group_on_save\<close>, for one user.\<close>

definition validate_user_on_save :: "uid \<Rightarrow> db \<Rightarrow> error + db" where
  "validate_user_on_save u d =
     (case user_profile d u of
        Inl e \<Rightarrow> Inl e
      | Inr profile \<Rightarrow>
          (case primary_group profile of
             None \<Rightarrow> Inr d
           | Some g \<Rightarrow>
               if g \<notin> set (user_groups_all d u)
               then Inr (snd (UserProfile_save d (profile\<lparr>primary_group := None\<rparr>)))
               else Inr d))"

definition validate_primary_group_on_save :: "db \<Rightarrow> gid \<Rightarrow> error + db" where
  "validate_primary_group_on_save d inst =
     for_each validate_user_on_save (group_user_set_all d inst) d"

text \<open>The body of the loop of \<^verbatim>\<open>validate_primary_group_on_delete\<close>, for one user.\<close>

definition validate_user_on_delete :: "gid \<Rightarrow> uid \<Rightarrow> db \<Rightarrow> error + db" where
  "validate_user_on_delete inst u d =
     (case user_profile d u of
        Inl e \<Rightarrow> Inl e
      | Inr profile \<Rightarrow>
          if primary_group profile = Some inst
          then Inr (snd (UserProfile_save d (profile\<lparr>primary_group := None\<rparr>)))
          else Inr d)"

definition validate_primary_group_on_delete :: "db \<Rightarrow> gid \<Rightarrow> error + db" where
  "validate_primary_group_on_delete d inst =
     for_each (validate_user_on_delete inst) (group_user_set_all d inst) d"

text \<open>
  \<^verbatim>\<open>validate_primary_group_on_group_change\<close>: \<^verbatim>\<open>instance.profile\<close> exists on a user only;
  Django hands the receiver the group when the relation is changed from the group's side.
\<close>

definition validate_primary_group_on_group_change ::
  "db \<Rightarrow> model_instance \<Rightarrow> m2m_action \<Rightarrow> error + db" where
  "validate_primary_group_on_group_change d inst action =
     (if action \<in> set [post_add, post_remove] then
        (case inst of
           User_instance u \<Rightarrow>
             (case user_profile d u of
                Inl e \<Rightarrow> Inl e
              | Inr profile \<Rightarrow>
                  (case primary_group profile of
                     None \<Rightarrow> Inr d
                   | Some g \<Rightarrow>
                       if g \<notin> set (user_groups_all d u)
                       then Inr (snd (UserProfile_save d (profile\<lparr>primary_group := None\<rparr>)))
                       else Inr d))
         | Group_instance _ \<Rightarrow> Inl AttributeError
         | Other_instance _ _ \<Rightarrow> Inl AttributeError)
      else Inr d)"


subsection \<open>Reconciliation of a group's permissions\<close>

text \<open>\<^verbatim>\<open>p.natural_key()\<close> of a permission is \<^verbatim>\<open>(codename, app_label, model)\<close>.\<close>

definition natural_key :: "Permission \<Rightarrow> string \<times> string \<times> string" where
  "natural_key p = (codename p, app_label p, model p)"

text \<open>\<^verbatim>\<open>group.permissions.all()\<close>, \<^verbatim>\<open>group.permissions.add(p)\<close>, \<^verbatim>\<open>group.permissions.remove(p)\<close>\<close>

definition group_permissions_all :: "db \<Rightarrow> gid \<Rightarrow> Permission list" where
  "group_permissions_all d g = map snd (filter (\<lambda>row. fst row = g) (group_permissions d))"

definition group_permissions_add :: "db \<Rightarrow> gid \<Rightarrow> Permission \<Rightarrow> db" where
  "group_permissions_add d g p =
     (if (g, p) \<in> set (group_permissions d) then d
      else d\<lparr>group_permissions := group_permissions d @ [(g, p)]\<rparr>)"

definition group_permissions_remove :: "db \<Rightarrow> gid \<Rightarrow> Permission \<Rightarrow> db" where
  "group_permissions_remove d g p =
     d\<lparr>group_permissions := filter (\<lambda>row. row \<noteq> (g, p)) (group_permissions d)\<rparr>"

text \<open>
  The simplified permission strings of the group, \<^verbatim>\<open>f'{app}.{permission}'\<close> for each
  permission it holds (the set \<^verbatim>\<open>group_permissions\<close> of the source, as a list).
\<close>

definition group_permission_strings :: "db \<Rightarrow> gid \<Rightarrow> string list" where
  "group_permission_strings d g =
     map (\<lambda>p. case natural_key p of (permission, app, mdl) \<Rightarrow> app @ ''.'' @ permission)
       (group_permissions_all d g)"

text \<open>
  The local variables of \<^verbatim>\<open>update_group_roles\<close> that its nested function \<^verbatim>\<open>add_model\<close> and
  its last loop read: the two sets (lists without repetition), and the loop variables
  \<^verbatim>\<open>model\<close> and \<^verbatim>\<open>ruleset\<close>, unbound (\<open>None\<close>) before their loops have run.
\<close>

record locals =
  permissions_to_add :: "string list"
  permissions_to_delete :: "string list"
  model_var :: "string option"
  ruleset_var :: "RuleSet option"

text \<open>
  \<^verbatim>\<open>
  def add_model(name, action, allowed):
      if action not in ['view', 'add', 'change', 'delete']:
          raise ValueError(f'Action {action} is invalid')
      permission_string = RuleSet.get_model_permission_string(model, action)
      if allowed:
          if permission_string in permissions_to_delete:
              permissions_to_delete.remove(permission_string)
          permissions_to_add.add(permission_string)
      elif permission_string not in permissions_to_add:
          permissions_to_delete.add(permission_string)
  \<close>
  The permission string is built from the enclosing function's variable \<^verbatim>\<open>model\<close>, not
  from the parameter \<^verbatim>\<open>name\<close>.
\<close>

definition add_model :: "string \<Rightarrow> string \<Rightarrow> bool \<Rightarrow> locals \<Rightarrow> error + locals" where
  "add_model nm action allowed l =
     (if action \<notin> set [''view'', ''add'', ''change'', ''delete''] then Inl ValueError
      else
        (case model_var l of
           None \<Rightarrow> Inl NameError
         | Some m \<Rightarrow>
             (case get_model_permission_string m action of
                Inl e \<Rightarrow> Inl e
              | Inr permission_string \<Rightarrow>
                  if allowed then
                    Inr (l\<lparr>permissions_to_delete :=
                              removeAll permission_string (permissions_to_delete l),
                            permissions_to_add :=
                              List.insert permission_string (permissions_to_add l)\<rparr>)
                  else if permission_string \<notin> set (permissions_to_add l) then
                    Inr (l\<lparr>permissions_to_delete :=
                              List.insert permission_string (permissions_to_delete l)\<rparr>)
                  else Inr l)))"

text \<open>
  \<^verbatim>\<open>
  (app, perm) = permission_string.split('.')
  perm, model = split_permission(app, perm)
  try:
      content_type = ContentType.objects.get(app_label=app, model=model)
      permission = Permission.objects.get(content_type=content_type, codename=perm)
  except ContentType.DoesNotExist:
      permission = None
  return permission
  \<close>
  A missing permission of an existing content type is not caught.
\<close>

definition get_permission_object :: "db \<Rightarrow> string \<Rightarrow> error + Permission option" where
  "get_permission_object d permission_string =
     (case split_str (CHR ''.'') permission_string of
        [app, perm] \<Rightarrow>
          (case split_permission app perm of
             Inl e \<Rightarrow> Inl e
           | Inr (perm1, mdl) \<Rightarrow>
               if (app, mdl) \<notin> set (content_types d) then Inr None
               else
                 (case filter (\<lambda>p. app_label p = app \<and> model p = mdl \<and> codename p = perm1)
                         (auth_permissions d) of
                    [] \<Rightarrow> Inl Permission_DoesNotExist
                  | [p] \<Rightarrow> Inr (Some p)
                  | _ # _ # _ \<Rightarrow> Inl MultipleObjectsReturned))
      | _ \<Rightarrow> Inl ValueError)"

text \<open>The body of the loop over \<^verbatim>\<open>permissions_to_add\<close>.\<close>

definition add_permission :: "gid \<Rightarrow> string list \<Rightarrow> string \<Rightarrow> db \<Rightarrow> error + db" where
  "add_permission g group_perms perm d =
     (if perm \<in> set group_perms then Inr d
      else
        (case get_permission_object d perm of
           Inl e \<Rightarrow> Inl e
         | Inr None \<Rightarrow> Inr d
         | Inr (Some permission) \<Rightarrow> Inr (group_permissions_add d g permission)))"

text \<open>The body of the loop over \<^verbatim>\<open>permissions_to_delete\<close>.\<close>

definition remove_permission :: "gid \<Rightarrow> string list \<Rightarrow> string \<Rightarrow> db \<Rightarrow> error + db" where
  "remove_permission g group_perms perm d =
     (if perm \<notin> set group_perms then Inr d
      else
        (case get_permission_object d perm of
           Inl e \<Rightarrow> Inl e
         | Inr None \<Rightarrow> Inr d
         | Inr (Some permission) \<Rightarrow> Inr (group_permissions_remove d g permission)))"

text \<open>
  The body of the inner loop of the inheritance step, for one pair and one action:
  \<^verbatim>\<open>
  parent_perm = f'{parent}.{action}_{parent}'
  if parent_perm in group_permissions:
      child_perm = f'{parent}.{action}_{child}'
      if child_perm not in group_permissions:
          add_model(parent_child_string, action, ruleset.can_delete)
          permission = get_permission_object(child_perm)
          if permission:
              group.permissions.add(permission)
  \<close>
  \<^verbatim>\<open>group_permissions\<close> is the set read at the start of \<^verbatim>\<open>update_group_roles\<close>.
\<close>

definition inherit_action ::
  "gid \<Rightarrow> string list \<Rightarrow> string \<Rightarrow> string \<Rightarrow> string \<Rightarrow> db \<times> locals \<Rightarrow> error + (db \<times> locals)" where
  "inherit_action g group_perms parent child action s =
     (let d = fst s; l = snd s;
          parent_child_string = parent @ ''_'' @ child;
          parent_perm = parent @ ''.'' @ action @ ''_'' @ parent
      in if parent_perm \<in> set group_perms then
           (let child_perm = parent @ ''.'' @ action @ ''_'' @ child
            in if child_perm \<notin> set group_perms then
                 (case ruleset_var l of
                    None \<Rightarrow> Inl NameError
                  | Some ruleset \<Rightarrow>
                      (case add_model parent_child_string action (can_delete ruleset) l of
                         Inl e \<Rightarrow> Inl e
                       | Inr l1 \<Rightarrow>
                           (case get_permission_object d child_perm of
                              Inl e \<Rightarrow> Inl e
                            | Inr None \<Rightarrow> Inr (d, l1)
                            | Inr (Some permission) \<Rightarrow>
                                Inr (group_permissions_add d g permission, l1))))
               else Inr s)
         else Inr s)"

definition inherit_pair ::
  "gid \<Rightarrow> string list \<Rightarrow> string \<times> string \<Rightarrow> db \<times> locals \<Rightarrow> error + (db \<times> locals)" where
  "inherit_pair g group_perms pair s =
     for_each (inherit_action g group_perms (fst pair) (snd pair))
       [''view'', ''change'', ''add'', ''delete''] s"

text \<open>
  The body of the loop over the models of a rule set:
  \<^verbatim>\<open>
  for model in models:
      add_model(model, 'view', ruleset.can_view)
      add_model(model, 'add', ruleset.can_add)
      add_model(model, 'change', ruleset.can_change)
      add_model(model, 'delete', ruleset.can_delete)
  \<close>
\<close>

definition add_models_of :: "RuleSet \<Rightarrow> string \<Rightarrow> locals \<Rightarrow> error + locals" where
  "add_models_of ruleset m l =
     (let l0 = l\<lparr>model_var := Some m\<rparr>
      in case add_model m ''view'' (can_view ruleset) l0 of
           Inl e \<Rightarrow> Inl e
         | Inr l1 \<Rightarrow>
             (case add_model m ''add'' (can_add ruleset) l1 of
                Inl e \<Rightarrow> Inl e
              | Inr l2 \<Rightarrow>
                  (case add_model m ''change'' (can_change ruleset) l2 of
                     Inl e \<Rightarrow> Inl e
                   | Inr l3 \<Rightarrow> add_model m ''delete'' (can_delete ruleset) l3)))"

subsection \<open>Saving rule sets and groups\<close>

text \<open>
  The inherited \<^verbatim>\<open>save\<close> of a rule set. \<^verbatim>\<open>unique_together = (('name', 'group'),)\<close> makes
  a second row for a \<open>(name, group)\<close> pair raise; an instance without a primary key is
  inserted under a fresh one, an instance with one replaces its row.
\<close>

definition RuleSet_super_save :: "db \<Rightarrow> RuleSet \<Rightarrow> error + (RuleSet \<times> db)" where
  "RuleSet_super_save d self =
     (case rs_pk self of
        None \<Rightarrow>
          if \<exists>r \<in> set (rule_sets d). name r = name self \<and> group r = group self
          then Inl IntegrityError
          else
            (let fresh = Suc (fold max (map (\<lambda>r. case rs_pk r of None \<Rightarrow> 0 | Some k \<Rightarrow> k)
                                          (rule_sets d)) 0);
                 self1 = self\<lparr>rs_pk := Some fresh\<rparr>
             in Inr (self1, d\<lparr>rule_sets := rule_sets d @ [self1]\<rparr>))
      | Some k \<Rightarrow>
          if \<exists>r \<in> set (rule_sets d). name r = name self \<and> group r = group self \<and> rs_pk r \<noteq> Some k
          then Inl IntegrityError
          else if \<exists>r \<in> set (rule_sets d). rs_pk r = Some k
          then Inr (self, d\<lparr>rule_sets := map (\<lambda>r. if rs_pk r = Some k then self else r) (rule_sets d)\<rparr>)
          else Inr (self, d\<lparr>rule_sets := rule_sets d @ [self]\<rparr>))"

text \<open>
  \<^verbatim>\<open>
  if self.can_add or self.can_change or self.can_delete:
      self.can_view = True
  if self.can_add or self.can_delete:
      self.can_change = True
  super().save(*args, **kwargs)
  if self.group:
      self.group.save()
  \<close>
  \<open>group_save\<close> is \<^verbatim>\<open>Group.save\<close> with the receivers of its \<^verbatim>\<open>post_save\<close> signal.
\<close>

definition RuleSet_save ::
  "(db \<Rightarrow> gid \<Rightarrow> (error + db) option) \<Rightarrow> db \<Rightarrow> RuleSet \<Rightarrow> (error + (RuleSet \<times> db)) option" where
  "RuleSet_save group_save d self =
     (let self1 = (if can_add self \<or> can_change self \<or> can_delete self
                   then self\<lparr>can_view := True\<rparr> else self);
          self2 = (if can_add self1 \<or> can_delete self1
                   then self1\<lparr>can_change := True\<rparr> else self1)
      in case RuleSet_super_save d self2 of
           Inl e \<Rightarrow> Some (Inl e)
         | Inr (self3, d1) \<Rightarrow>
             bind_deep (group_save d1 (group self3)) (\<lambda>d2. Some (Inr (self3, d2))))"

text \<open>\<^verbatim>\<open>RuleSet.objects.get(group=group, name=rulename)\<close>\<close>

definition RuleSet_objects_get :: "db \<Rightarrow> gid \<Rightarrow> string \<Rightarrow> error + RuleSet" where
  "RuleSet_objects_get d g rulename =
     (case filter (\<lambda>r. group r = g \<and> name r = rulename) (rule_sets d) of
        [] \<Rightarrow> Inl DoesNotExist
      | [r] \<Rightarrow> Inr r
      | _ # _ # _ \<Rightarrow> Inl MultipleObjectsReturned)"

text \<open>\<^verbatim>\<open>RuleSet.objects.create(group=group, name=rulename)\<close>: every flag defaults to false.\<close>

definition RuleSet_objects_create ::
  "(db \<Rightarrow> gid \<Rightarrow> (error + db) option) \<Rightarrow> db \<Rightarrow> gid \<Rightarrow> string \<Rightarrow> (error + (RuleSet \<times> db)) option" where
  "RuleSet_objects_create group_save d g rulename =
     RuleSet_save group_save d
       \<lparr>rs_pk = None, name = rulename, group = g,
        can_view = False, can_add = False, can_change = False, can_delete = False\<rparr>"

text \<open>
  The first half of the body of the loop of \<^verbatim>\<open>update_group_roles\<close> over
  \<^verbatim>\<open>RuleSet.RULESET_CHOICES\<close>; \<open>rulesets\<close> is the dictionary read before the loop:
  \<^verbatim>\<open>
  if rulename in rulesets:
      ruleset = rulesets[rulename]
  else:
      try:
          ruleset = RuleSet.objects.get(group=group, name=rulename)
      except RuleSet.DoesNotExist:
          ruleset = RuleSet.objects.create(group=group, name=rulename)
  \<close>
\<close>

definition find_ruleset ::
  "(db \<Rightarrow> gid \<Rightarrow> (error + db) option) \<Rightarrow> gid \<Rightarrow> (string \<Rightarrow> RuleSet option) \<Rightarrow>
     string \<Rightarrow> db \<Rightarrow> (error + (RuleSet \<times> db)) option" where
  "find_ruleset group_save g rulesets rulename d =
     (case rulesets rulename of
        Some ruleset \<Rightarrow> Some (Inr (ruleset, d))
      | None \<Rightarrow>
          (case RuleSet_objects_get d g rulename of
             Inr ruleset \<Rightarrow> Some (Inr (ruleset, d))
           | Inl e \<Rightarrow>
               if e = DoesNotExist then RuleSet_objects_create group_save d g rulename
               else Some (Inl e)))"

text \<open>The whole body: the rule set is found or created, then its models are added.\<close>

definition ruleset_step ::
  "(db \<Rightarrow> gid \<Rightarrow> (error + db) option) \<Rightarrow> gid \<Rightarrow> (string \<Rightarrow> RuleSet option) \<Rightarrow>
     string \<times> string \<Rightarrow> db \<times> locals \<Rightarrow> (error + (db \<times> locals)) option" where
  "ruleset_step group_save g rulesets r s =
     bind_deep (find_ruleset group_save g rulesets (fst r) (fst s))
       (\<lambda>found.
          case for_each (add_models_of (fst found)) (get_models (site_multi (snd found)) (fst found))
                 ((snd s)\<lparr>ruleset_var := Some (fst found)\<rparr>) of
            Inl e \<Rightarrow> Some (Inl e)
          | Inr l1 \<Rightarrow> Some (Inr (snd found, l1)))"

text \<open>
  \<^verbatim>\<open>update_group_roles(group)\<close>: read the group's permissions, collect the permissions to
  add and to delete from the rule sets (the loop over \<^verbatim>\<open>RULESET_CHOICES\<close>), and then, in
  \<open>apply_permissions\<close>, the three loops that follow: add, remove, and the inheritance step.
\<close>

text \<open>
  The local variables before the loop over the rule sets: both sets are empty, \<^verbatim>\<open>ruleset\<close>
  is unbound, and \<^verbatim>\<open>model\<close> is what the loop that reads the group's permissions,
  \<^verbatim>\<open>(permission, app, model) = p.natural_key()\<close>, has left in it: the model of the last
  permission, or nothing when the group has no permission.
\<close>

definition initial_locals :: "db \<Rightarrow> gid \<Rightarrow> locals" where
  "initial_locals d g =
     \<lparr>permissions_to_add = [], permissions_to_delete = [],
      model_var = (case group_permissions_all d g of
                     [] \<Rightarrow> None
                   | p # ps \<Rightarrow> Some (snd (snd (natural_key (last (p # ps)))))),
      ruleset_var = None\<rparr>"

definition apply_permissions ::
  "gid \<Rightarrow> string list \<Rightarrow> db \<times> locals \<Rightarrow> error + db" where
  "apply_permissions g group_perms s1 =
     (case for_each (add_permission g group_perms) (permissions_to_add (snd s1)) (fst s1) of
        Inl e \<Rightarrow> Inl e
      | Inr d2 \<Rightarrow>
          (case for_each (remove_permission g group_perms) (permissions_to_delete (snd s1)) d2 of
             Inl e \<Rightarrow> Inl e
           | Inr d3 \<Rightarrow>
               (case for_each (inherit_pair g group_perms) RULESET_CHANGE_INHERIT (d3, snd s1) of
                  Inl e \<Rightarrow> Inl e
                | Inr s4 \<Rightarrow> Inr (fst s4))))"

definition update_group_roles ::
  "(db \<Rightarrow> gid \<Rightarrow> (error + db) option) \<Rightarrow> db \<Rightarrow> gid \<Rightarrow> (error + db) option" where
  "update_group_roles group_save d g =
     (if \<not> can_access_database d then Some (Inr d)
      else
        (let group_perms = group_permission_strings d g;
             l0 = initial_locals d g;
             rulesets = map_of (map (\<lambda>r. (name r, r)) (rev (group_rule_sets_all d g)))
         in bind_deep (for_each_deep (ruleset_step group_save g rulesets) RULESET_CHOICES (d, l0))
              (\<lambda>s1. Some (apply_permissions g group_perms s1))))"

text \<open>The receiver \<^verbatim>\<open>create_missing_rule_sets\<close>.\<close>

definition create_missing_rule_sets ::
  "(db \<Rightarrow> gid \<Rightarrow> (error + db) option) \<Rightarrow> db \<Rightarrow> gid \<Rightarrow> (error + db) option" where
  "create_missing_rule_sets group_save d inst = update_group_roles group_save d inst"

text \<open>
  \<^verbatim>\<open>Group.save()\<close>: the row is written and the receivers of \<^verbatim>\<open>post_save\<close> for \<^verbatim>\<open>Group\<close> run
  in the order they are connected: \<^verbatim>\<open>create_owner\<close>, \<^verbatim>\<open>create_missing_rule_sets\<close>,
  \<^verbatim>\<open>validate_primary_group_on_save\<close>. \<open>group_save\<close> is the same function one level deeper.
\<close>

definition Group_save_signals ::
  "(db \<Rightarrow> gid \<Rightarrow> (error + db) option) \<Rightarrow> db \<Rightarrow> gid \<Rightarrow> (error + db) option" where
  "Group_save_signals group_save d g =
     (let d1 = (if g \<in> set (auth_groups d) then d else d\<lparr>auth_groups := auth_groups d @ [g]\<rparr>)
      in case create_owner d1 (Group_instance g) of
           Inl e \<Rightarrow> Some (Inl e)
         | Inr d2 \<Rightarrow>
             bind_deep (create_missing_rule_sets group_save d2 g)
               (\<lambda>d3. Some (validate_primary_group_on_save d3 g)))"

primrec Group_save :: "nat \<Rightarrow> db \<Rightarrow> gid \<Rightarrow> (error + db) option" where
  "Group_save 0 d g = None"
| "Group_save (Suc depth) d g = Group_save_signals (Group_save depth) d g"

text \<open>
  \<^verbatim>\<open>Group.delete()\<close>: the foreign key \<^verbatim>\<open>primary_group\<close> is declared \<^verbatim>\<open>SET_NULL\<close>, the foreign
  key \<^verbatim>\<open>RuleSet.group\<close> is declared \<^verbatim>\<open>CASCADE\<close>, the rows of the group's many-to-many
  relations go with it; then the receivers of \<^verbatim>\<open>post_delete\<close> run: \<^verbatim>\<open>delete_owner\<close>,
  \<^verbatim>\<open>validate_primary_group_on_delete\<close>.
\<close>

definition Group_delete :: "db \<Rightarrow> gid \<Rightarrow> error + db" where
  "Group_delete d g =
     (let d1 = d\<lparr>profiles := map (\<lambda>p. if primary_group p = Some g then p\<lparr>primary_group := None\<rparr> else p)
                               (profiles d),
                 rule_sets := filter (\<lambda>r. group r \<noteq> g) (rule_sets d),
                 user_groups := filter (\<lambda>row. snd row \<noteq> g) (user_groups d),
                 group_permissions := filter (\<lambda>row. fst row \<noteq> g) (group_permissions d),
                 auth_groups := removeAll g (auth_groups d)\<rparr>
      in case delete_owner d1 (Group_instance g) of
           Inl e \<Rightarrow> Inl e
         | Inr d2 \<Rightarrow> validate_primary_group_on_delete d2 g)"

text \<open>
  Changes of the membership relation. Django sends \<^verbatim>\<open>m2m_changed\<close> before and after the
  rows are written, with the user as instance for \<^verbatim>\<open>user.groups.add(group)\<close> and
  \<^verbatim>\<open>user.groups.remove(group)\<close>, and with the group as instance for
  \<^verbatim>\<open>group.user_set.add(user)\<close> and \<^verbatim>\<open>group.user_set.remove(user)\<close>;
  \<^verbatim>\<open>user.groups.clear()\<close> removes every membership of the user and sends the actions
  \<^verbatim>\<open>pre_clear\<close> and \<^verbatim>\<open>post_clear\<close>.
\<close>

definition m2m_change ::
  "model_instance \<Rightarrow> m2m_action \<Rightarrow> m2m_action \<Rightarrow> ((uid \<times> gid) list \<Rightarrow> (uid \<times> gid) list) \<Rightarrow>
     db \<Rightarrow> error + db" where
  "m2m_change inst before after write d =
     (case validate_primary_group_on_group_change d inst before of
        Inl e \<Rightarrow> Inl e
      | Inr d1 \<Rightarrow>
          validate_primary_group_on_group_change (d1\<lparr>user_groups := write (user_groups d1)\<rparr>)
            inst after)"

definition user_groups_add :: "db \<Rightarrow> uid \<Rightarrow> gid \<Rightarrow> error + db" where
  "user_groups_add d u g =
     m2m_change (User_instance u) pre_add post_add
       (\<lambda>rows. if (u, g) \<in> set rows then rows else rows @ [(u, g)]) d"

definition user_groups_remove :: "db \<Rightarrow> uid \<Rightarrow> gid \<Rightarrow> error + db" where
  "user_groups_remove d u g =
     m2m_change (User_instance u) pre_remove post_remove
       (\<lambda>rows. filter (\<lambda>row. row \<noteq> (u, g)) rows) d"

definition group_user_set_add :: "db \<Rightarrow> gid \<Rightarrow> uid \<Rightarrow> error + db" where
  "group_user_set_add d g u =
     m2m_change (Group_instance g) pre_add post_add
       (\<lambda>rows. if (u, g) \<in> set rows then rows else rows @ [(u, g)]) d"

definition group_user_set_remove :: "db \<Rightarrow> gid \<Rightarrow> uid \<Rightarrow> error + db" where
  "group_user_set_remove d g u =
     m2m_change (Group_instance g) pre_remove post_remove
       (\<lambda>rows. filter (\<lambda>row. row \<noteq> (u, g)) rows) d"

definition user_groups_clear :: "db \<Rightarrow> uid \<Rightarrow> error + db" where
  "user_groups_clear d u =
     m2m_change (User_instance u) pre_clear post_clear
       (\<lambda>rows. filter (\<lambda>row. fst row \<noteq> u) rows) d"


subsection \<open>The marks of a pass\<close>

text \<open>
  One marking of a permission, as the loops of \<^verbatim>\<open>update_group_roles\<close> make it: the loop
  variable \<^verbatim>\<open>model\<close> is bound and \<^verbatim>\<open>add_model(model, action, allowed)\<close> is called. A pass
  over the rule sets is a sequence of such marks (\<open>pass_calls\<close>, in the order of the
  loops); \<open>marked allowed calls\<close> are the permission strings that a sequence marks
  allowed, or forbidden.
\<close>

definition mark :: "string \<times> string \<times> bool \<Rightarrow> locals \<Rightarrow> error + locals" where
  "mark c l =
     (case c of (m, action, allowed) \<Rightarrow> add_model m action allowed (l\<lparr>model_var := Some m\<rparr>))"

definition marked :: "bool \<Rightarrow> (string \<times> string \<times> bool) list \<Rightarrow> string set" where
  "marked allowed calls =
     {s. \<exists>m action. (m, action, allowed) \<in> set calls \<and> get_model_permission_string m action = Inr s}"

definition model_calls :: "RuleSet \<Rightarrow> string \<Rightarrow> (string \<times> string \<times> bool) list" where
  "model_calls ruleset m =
     [(m, ''view'', can_view ruleset), (m, ''add'', can_add ruleset),
      (m, ''change'', can_change ruleset), (m, ''delete'', can_delete ruleset)]"

definition ruleset_calls :: "bool \<Rightarrow> RuleSet \<Rightarrow> (string \<times> string \<times> bool) list" where
  "ruleset_calls multi ruleset = concat (map (model_calls ruleset) (get_models multi ruleset))"

definition pass_calls ::
  "bool \<Rightarrow> (string \<Rightarrow> RuleSet option) \<Rightarrow> string list \<Rightarrow> (string \<times> string \<times> bool) list" where
  "pass_calls multi rulesets names =
     concat (map (\<lambda>n. case rulesets n of None \<Rightarrow> [] | Some r \<Rightarrow> ruleset_calls multi r) names)"

text \<open>The variable \<^verbatim>\<open>model\<close> is bound to a name that \<^verbatim>\<open>split_model\<close> accepts.\<close>

definition model_ok :: "locals \<Rightarrow> bool" where
  "model_ok l \<longleftrightarrow> (\<exists>m x. model_var l = Some m \<and> split_model m = Inr x)"

subsection \<open>The outcome of a pass\<close>

text \<open>
  The terms the outcome of \<^verbatim>\<open>update_group_roles\<close> is stated in: the rows of the group for
  the permission strings of a set that \<^verbatim>\<open>get_permission_object\<close> finds; the child
  permission strings that the inheritance step adds, given the permission strings \<open>G\<close>
  the group held at the start of the pass; and the dictionary \<^verbatim>\<open>rulesets\<close> of the pass.
\<close>

definition resolved :: "db \<Rightarrow> gid \<Rightarrow> string set \<Rightarrow> (gid \<times> Permission) set" where
  "resolved d g S = {(g, p) | p s. s \<in> S \<and> get_permission_object d s = Inr (Some p)}"

definition inherit_strings :: "string set \<Rightarrow> (string \<times> string) list \<Rightarrow> string list \<Rightarrow> string set" where
  "inherit_strings G pairs actions =
     {fst pair @ ''.'' @ action @ ''_'' @ snd pair | pair action.
        pair \<in> set pairs \<and> action \<in> set actions
        \<and> fst pair @ ''.'' @ action @ ''_'' @ fst pair \<in> G
        \<and> fst pair @ ''.'' @ action @ ''_'' @ snd pair \<notin> G}"

definition rulesets_of :: "db \<Rightarrow> gid \<Rightarrow> string \<Rightarrow> RuleSet option" where
  "rulesets_of d g = map_of (map (\<lambda>r. (name r, r)) (rev (group_rule_sets_all d g)))"

subsection \<open>Example data\<close>

text \<open>A concurrent writer that inserts an owner row.\<close>

definition racing_insert :: "Owner \<Rightarrow> db \<Rightarrow> db" where
  "racing_insert ow d = d\<lparr>owners := owners d @ [ow]\<rparr>"

text \<open>One user in one group, which is the primary group of the user's profile.\<close>

definition example_db :: db where
  "example_db =
     \<lparr>site_multi = False, importing_data = False, can_access_database = True,
      auth_users = [\<lparr>user_pk = 1, is_superuser = False\<rparr>],
      auth_groups = [1],
      user_groups = [(1, 1)],
      content_types = [],
      auth_permissions = [],
      group_permissions = [],
      rule_sets = [],
      owners = [],
      other_objects = [],
      profiles = [\<lparr>profile_user = 1, primary_group = Some 1\<rparr>],
      session_cache = []\<rparr>"

text \<open>
  Group 1 holds a rule set \<^verbatim>\<open>part\<close> that grants view; the session cache still holds the
  answer \<^verbatim>\<open>False\<close> for user 1, role \<^verbatim>\<open>part\<close> and permission \<^verbatim>\<open>view\<close>.
\<close>

definition stale_cache_db :: db where
  "stale_cache_db =
     example_db
       \<lparr>rule_sets := [\<lparr>rs_pk = Some 1, name = ''part'', group = 1,
                       can_view = True, can_add = False, can_change = False, can_delete = False\<rparr>],
        session_cache := [(''role_1_part_view'', False)]\<rparr>"

subsection \<open>The invariant of the primary group\<close>

text \<open>
  Every user has at most one profile (the profile's \<^verbatim>\<open>user\<close> is a one-to-one field), and
  a primary group that is set is one of the groups the profile's user belongs to.
\<close>

definition profile_valid :: "db \<Rightarrow> UserProfile \<Rightarrow> bool" where
  "profile_valid d p =
     (case primary_group p of
        None \<Rightarrow> True
      | Some g \<Rightarrow> g \<in> set (user_groups_all d (profile_user p)))"

definition primary_group_valid :: "db \<Rightarrow> bool" where
  "primary_group_valid d \<longleftrightarrow>
     distinct (map profile_user (profiles d)) \<and> list_all (profile_valid d) (profiles d)"

subsection \<open>What the rule sets grant\<close>

text \<open>
  The terms the properties of the authorization queries are stated in: a rule set grants
  a permission when the flag of that name is set; a role is granted to a user when a rule
  set of that name, of one of the user's groups, grants the permission; a role governs a
  table when the table is in the role's list of \<^verbatim>\<open>get_ruleset_models\<close>.
\<close>

definition rule_grants :: "RuleSet \<Rightarrow> string \<Rightarrow> bool" where
  "rule_grants rule permission \<longleftrightarrow>
     permission = ''view'' \<and> can_view rule
     \<or> permission = ''add'' \<and> can_add rule
     \<or> permission = ''change'' \<and> can_change rule
     \<or> permission = ''delete'' \<and> can_delete rule"

definition role_granted :: "db \<Rightarrow> uid \<Rightarrow> string \<Rightarrow> string \<Rightarrow> bool" where
  "role_granted d u role permission \<longleftrightarrow>
     (\<exists>g \<in> set (user_groups_all d u).
        \<exists>rule \<in> set (group_rule_sets_all d g). name rule = role \<and> rule_grants rule permission)"

definition governs :: "db \<Rightarrow> string \<Rightarrow> string \<Rightarrow> bool" where
  "governs d role table \<longleftrightarrow>
     (case map_of (get_ruleset_models (site_multi d)) role of
        None \<Rightarrow> False
      | Some ms \<Rightarrow> table \<in> set ms)"

text \<open>
  The session cache is coherent for a user and a permission when every entry it holds
  for a role of the rule table is what the rule sets grant now; an empty cache is.
\<close>

definition cache_coherent :: "db \<Rightarrow> User \<Rightarrow> string \<Rightarrow> bool" where
  "cache_coherent d usr permission \<longleftrightarrow>
     (\<forall>role \<in> set RULESET_NAMES.
        case get_session_cache d (role_cache_key usr role permission) of
          None \<Rightarrow> True
        | Some v \<Rightarrow> v = role_granted d (user_pk usr) role permission)"

text \<open>
  A database with the permissions of the tables \<^verbatim>\<open>part_part\<close> and
  \<^verbatim>\<open>part_partparameter\<close> only, and one group with its owner.
\<close>

definition part_permission :: "string \<Rightarrow> string \<Rightarrow> Permission" where
  "part_permission action mdl = \<lparr>codename = action @ ''_'' @ mdl, app_label = ''part'', model = mdl\<rparr>"

definition rule_set_row :: "nat \<Rightarrow> string \<Rightarrow> bool \<Rightarrow> bool \<Rightarrow> RuleSet" where
  "rule_set_row k n v c =
     \<lparr>rs_pk = Some k, name = n, group = 1,
      can_view = v, can_add = False, can_change = c, can_delete = False\<rparr>"

definition part_tables_db :: db where
  "part_tables_db =
     example_db
       \<lparr>content_types := [(''part'', ''part''), (''part'', ''partparameter'')],
        auth_permissions :=
          [part_permission ''view'' ''part'', part_permission ''add'' ''part'',
           part_permission ''change'' ''part'', part_permission ''delete'' ''part'',
           part_permission ''view'' ''partparameter'', part_permission ''add'' ''partparameter'',
           part_permission ''change'' ''partparameter'', part_permission ''delete'' ''partparameter''],
        owners := [\<lparr>owner_pk = 1, owner_type = Some group_content_type, owner_id = Some 1\<rparr>]\<rparr>"

text \<open>Group 1 with all its rule sets; only the rule set \<^verbatim>\<open>build\<close> grants view.\<close>

definition build_view_db :: db where
  "build_view_db =
     part_tables_db
       \<lparr>rule_sets :=
          [rule_set_row 1 ''admin'' False False,
           rule_set_row 2 ''part_category'' False False,
           rule_set_row 3 ''part'' False False,
           rule_set_row 4 ''stocktake'' False False,
           rule_set_row 5 ''stock_location'' False False,
           rule_set_row 6 ''stock'' False False,
           rule_set_row 7 ''build'' True False,
           rule_set_row 8 ''purchase_order'' False False,
           rule_set_row 9 ''sales_order'' False False,
           rule_set_row 10 ''return_order'' False False]\<rparr>"

section \<open>Properties\<close>

text \<open>
  C7, as the spec states it, for every saved token: the redacted token has the length of
  the raw key. It fails for a key shorter than 20 characters, where no mask is written and
  prefix and suffix overlap: a saved token with the ten-character key \<open>abcdefghij\<close> is
  rendered as 18 characters that contain the whole key.
\<close>

theorem token_short_key_counterexample:
  "token \<lparr>token_pk = Some 1, key = ''abcdefghij'', revoked = False\<rparr> = ''abcdefghabcdefghij''
   \<and> length (token \<lparr>token_pk = Some 1, key = ''abcdefghij'', revoked = False\<rparr>)
       \<noteq> length ''abcdefghij''"
  by (simp add: token_def)

text \<open>
  C7, amended: for every saved token whose key has length \<open>L \<ge> 20\<close> (the key field's
  validator asks for at least 50), the redacted token is the first 8 characters of the key,
  \<open>L - 20\<close> mask characters and the last 12 characters of the key; it has length \<open>L\<close>, and
  every position from 8 up to \<open>L - 12\<close> shows the mask character.
\<close>

theorem token_redacted:
  assumes "token_pk self \<noteq> None" and "20 \<le> length (key self)"
  shows "token self = take 8 (key self) @ replicate (length (key self) - 20) (CHR ''*'')
                        @ drop (length (key self) - 12) (key self)
         \<and> length (token self) = length (key self)
         \<and> (\<forall>i. 8 \<le> i \<and> i < length (key self) - 12 \<longrightarrow> token self ! i = CHR ''*'')"
proof -
  let ?k = "key self"
  have M: "nat (int (length ?k) - 20) = length ?k - 20"
    by simp
  have eq: "token self = take 8 ?k @ replicate (length ?k - 20) (CHR ''*'') @ drop (length ?k - 12) ?k"
    using assms(1) by (cases "token_pk self") (simp_all add: token_def Let_def M)
  have len: "length (token self) = length ?k"
    using assms(2) by (simp add: eq)
  have mid: "token self ! i = CHR ''*''" if "8 \<le> i" and "i < length ?k - 12" for i
  proof -
    have "length (take 8 ?k) = 8"
      using assms(2) by simp
    then have "token self ! i = (replicate (length ?k - 20) (CHR ''*'') @ drop (length ?k - 12) ?k) ! (i - 8)"
      using that(1) by (simp add: eq nth_append)
    also have "\<dots> = CHR ''*''"
    proof -
      have "i - 8 < length ?k - 20"
        using that assms(2) by arith
      then show ?thesis
        by (simp add: nth_append)
    qed
    finally show ?thesis .
  qed
  show ?thesis
    using eq len mid by blast
qed

theorem token_redacted_witness:
  "token \<lparr>token_pk = Some 7, key = ''inv-0123456789abcdef-20240101'', revoked = False\<rparr>
     = ''inv-0123*********def-20240101''
   \<and> length (token \<lparr>token_pk = Some 7, key = ''inv-0123456789abcdef-20240101'', revoked = False\<rparr>)
       = length ''inv-0123456789abcdef-20240101''"
  using token_redacted [of "\<lparr>token_pk = Some 7, key = ''inv-0123456789abcdef-20240101'', revoked = False\<rparr>"]
  by simp

subsection \<open>Authorization queries without a user\<close>

text \<open>
  C2: with no user, \<^verbatim>\<open>check_user_role\<close> and \<^verbatim>\<open>check_user_permission\<close> return false, as
  the claim says; \<^verbatim>\<open>check_table_permission\<close> does not test for a missing user and raises
  \<^verbatim>\<open>AttributeError\<close> on \<^verbatim>\<open>user.is_superuser\<close>, for every table and permission.
\<close>

theorem authorization_queries_without_user:
  "check_table_permission d None table permission = Inl AttributeError
   \<and> check_user_role d None role permission = (False, d)
   \<and> check_user_permission has_perm None meta permission = False"
  by (simp add: check_table_permission_def check_user_role_def check_user_permission_def)

subsection \<open>Owners\<close>

lemma get_owner_Inl:
  "get_owner d x = Inl e \<Longrightarrow> e = MultipleObjectsReturned"
  by (auto simp: get_owner_def Owner_objects_get_def Let_def
      split: model_instance.splits list.splits option.splits sum.splits if_splits)

text \<open>
  C10: \<^verbatim>\<open>get_related_owners\<close> returns a sequence exactly when the owner object is a group or
  a user; for every other owner, a dangling reference included, it returns \<^verbatim>\<open>None\<close>, and
  then \<^verbatim>\<open>is_user_allowed\<close> raises (\<^verbatim>\<open>TypeError\<close> from the membership test, unless the lookup
  of the user's owner has raised before) and does not return false.
\<close>

theorem related_owners_none:
  "((\<exists>xs. get_related_owners d self include_group = Some xs)
      \<longleftrightarrow> (\<exists>k. owner_of d self = Some (Group_instance k) \<or> owner_of d self = Some (User_instance k)))
   \<and> (get_related_owners d self include_group = None \<longrightarrow>
        is_user_allowed d self usr include_group = Inl TypeError
        \<or> is_user_allowed d self usr include_group = Inl MultipleObjectsReturned)"
proof -
  have a: "(\<exists>xs. get_related_owners d self include_group = Some xs)
      \<longleftrightarrow> (\<exists>k. owner_of d self = Some (Group_instance k) \<or> owner_of d self = Some (User_instance k))"
    by (auto simp: get_related_owners_def Let_def split: option.splits model_instance.splits)
  have b: "is_user_allowed d self usr include_group = Inl TypeError
        \<or> is_user_allowed d self usr include_group = Inl MultipleObjectsReturned"
    if "get_related_owners d self include_group = None"
  proof (cases "get_owner d usr")
    case (Inl e)
    then show ?thesis
      using get_owner_Inl [OF Inl] by (simp add: is_user_allowed_def)
  next
    case (Inr uo)
    then show ?thesis
      using that by (simp add: is_user_allowed_def)
  qed
  show ?thesis
    using a b by blast
qed

text \<open>An owner that refers to a group that does not exist.\<close>

theorem related_owners_none_witness:
  "get_related_owners example_db \<lparr>owner_pk = 1, owner_type = Some group_content_type, owner_id = Some 5\<rparr> False = None
   \<and> is_user_allowed example_db \<lparr>owner_pk = 1, owner_type = Some group_content_type, owner_id = Some 5\<rparr>
        (User_instance 1) False = Inl TypeError"
  using related_owners_none [of example_db "\<lparr>owner_pk = 1, owner_type = Some group_content_type, owner_id = Some 5\<rparr>" False "User_instance 1"]
  by (simp add: get_related_owners_def owner_of_def example_db_def is_user_allowed_def get_owner_def
      Owner_objects_get_def group_content_type_def user_content_type_def pk_of_def)

text \<open>
  C8, as the spec states it: when the insert hits the duplicate key, the existing owner is
  returned. It is not: no owner exists for group 1 at the lookup, a concurrent writer
  inserts one before the insert, the insert raises \<^verbatim>\<open>IntegrityError\<close>, and \<^verbatim>\<open>Owner.create\<close>
  returns \<^verbatim>\<open>None\<close> although the lookup would now find the owner.
\<close>

theorem owner_create_race_counterexample:
  "get_owner example_db (Group_instance 1) = Inr None
   \<and> get_owner (racing_insert \<lparr>owner_pk = 1, owner_type = Some group_content_type, owner_id = Some 1\<rparr> example_db)
        (Group_instance 1)
       = Inr (Some \<lparr>owner_pk = 1, owner_type = Some group_content_type, owner_id = Some 1\<rparr>)
   \<and> Owner_create (racing_insert \<lparr>owner_pk = 1, owner_type = Some group_content_type, owner_id = Some 1\<rparr>)
        example_db (Group_instance 1)
       = Inr (None, racing_insert \<lparr>owner_pk = 1, owner_type = Some group_content_type, owner_id = Some 1\<rparr> example_db)"
  by (simp add: Owner_create_def get_owner_def Owner_objects_get_def Owner_objects_create_def
      racing_insert_def example_db_def content_type_of_def pk_of_def group_content_type_def Let_def)

text \<open>
  C8, amended: \<^verbatim>\<open>Owner.create\<close> returns the owner that \<^verbatim>\<open>get_owner\<close> finds and leaves the
  database as it is; when none is found it inserts one and returns it; when that insert
  hits the duplicate key (a concurrent writer was faster) it returns \<^verbatim>\<open>None\<close>; it never
  propagates \<^verbatim>\<open>IntegrityError\<close>.
\<close>

theorem owner_create:
  "(get_owner d obj = Inr (Some ow) \<longrightarrow> Owner_create concurrent d obj = Inr (Some ow, d))
   \<and> (get_owner d obj = Inr None
        \<and> (\<exists>row \<in> set (owners (concurrent d)).
              owner_type row = Some (content_type_of obj) \<and> owner_id row = Some (pk_of obj))
        \<longrightarrow> Owner_create concurrent d obj = Inr (None, concurrent d))
   \<and> (get_owner d obj = Inr None
        \<and> \<not> (\<exists>row \<in> set (owners (concurrent d)).
              owner_type row = Some (content_type_of obj) \<and> owner_id row = Some (pk_of obj))
        \<longrightarrow> (\<exists>new. Owner_create concurrent d obj
                      = Inr (Some new, (concurrent d)\<lparr>owners := owners (concurrent d) @ [new]\<rparr>)
                  \<and> owner_type new = Some (content_type_of obj) \<and> owner_id new = Some (pk_of obj)))
   \<and> Owner_create concurrent d obj \<noteq> Inl IntegrityError"
  using get_owner_Inl [of d obj]
  by (auto simp: Owner_create_def Let_def Owner_objects_create_def split: sum.splits option.splits)

text \<open>A sequential run: the first call creates the owner, the second returns it.\<close>

theorem owner_create_witness:
  "Owner_create id example_db (Group_instance 1)
     = Inr (Some \<lparr>owner_pk = 1, owner_type = Some group_content_type, owner_id = Some 1\<rparr>,
            example_db\<lparr>owners := [\<lparr>owner_pk = 1, owner_type = Some group_content_type, owner_id = Some 1\<rparr>]\<rparr>)
   \<and> Owner_create id
        (example_db\<lparr>owners := [\<lparr>owner_pk = 1, owner_type = Some group_content_type, owner_id = Some 1\<rparr>]\<rparr>)
        (Group_instance 1)
     = Inr (Some \<lparr>owner_pk = 1, owner_type = Some group_content_type, owner_id = Some 1\<rparr>,
            example_db\<lparr>owners := [\<lparr>owner_pk = 1, owner_type = Some group_content_type, owner_id = Some 1\<rparr>]\<rparr>)"
  using owner_create [of "example_db\<lparr>owners := [\<lparr>owner_pk = 1, owner_type = Some group_content_type, owner_id = Some 1\<rparr>]\<rparr>"
      "Group_instance 1" "\<lparr>owner_pk = 1, owner_type = Some group_content_type, owner_id = Some 1\<rparr>" id]
  by (simp add: Owner_create_def get_owner_def Owner_objects_get_def Owner_objects_create_def
      example_db_def content_type_of_def pk_of_def group_content_type_def Let_def)

subsection \<open>Loops and invariants\<close>

lemma for_each_invariant:
  assumes "for_each body xs s = Inr s'" and "P s"
    and "\<And>x t t'. x \<in> set xs \<Longrightarrow> P t \<Longrightarrow> body x t = Inr t' \<Longrightarrow> P t'"
  shows "P s'"
  using assms
proof (induction xs arbitrary: s)
  case Nil
  then show ?case by simp
next
  case (Cons x xs)
  from Cons.prems(1) obtain t where t: "body x s = Inr t" and rest: "for_each body xs t = Inr s'"
    by (auto split: sum.splits)
  have "P t"
    using Cons.prems(2,3) t by auto
  then show ?case
    using Cons.IH [OF rest] Cons.prems(3) by auto
qed

lemma bind_deep_Inr:
  "bind_deep m f = Some (Inr y) \<longleftrightarrow> (\<exists>x. m = Some (Inr x) \<and> f x = Some (Inr y))"
  by (auto simp: bind_deep_def split: option.splits sum.splits)

lemma for_each_deep_invariant:
  assumes "for_each_deep body xs s = Some (Inr s')" and "P s"
    and "\<And>x t t'. x \<in> set xs \<Longrightarrow> P t \<Longrightarrow> body x t = Some (Inr t') \<Longrightarrow> P t'"
  shows "P s'"
  using assms
proof (induction xs arbitrary: s)
  case Nil
  then show ?case by simp
next
  case (Cons x xs)
  from Cons.prems(1) obtain t where t: "body x s = Some (Inr t)"
    and rest: "for_each_deep body xs t = Some (Inr s')"
    by (auto simp: bind_deep_Inr)
  have "P t"
    using Cons.prems(2,3) t by auto
  then show ?case
    using Cons.IH [OF rest] Cons.prems(3) by auto
qed

subsection \<open>What reconciliation and saving a group leave alone\<close>

lemma group_permissions_add_invariant:
  assumes "P d" and "\<And>d x. P d \<Longrightarrow> P (d\<lparr>group_permissions := x\<rparr>)"
  shows "P (group_permissions_add d g p)"
  using assms by (simp add: group_permissions_add_def)

lemma add_permission_invariant:
  assumes "add_permission g gp perm d = Inr d'" and "P d"
    and "\<And>d x. P d \<Longrightarrow> P (d\<lparr>group_permissions := x\<rparr>)"
  shows "P d'"
  using assms
  by (auto simp: add_permission_def intro: group_permissions_add_invariant
      split: if_splits sum.splits option.splits)

lemma remove_permission_invariant:
  assumes "remove_permission g gp perm d = Inr d'" and "P d"
    and "\<And>d x. P d \<Longrightarrow> P (d\<lparr>group_permissions := x\<rparr>)"
  shows "P d'"
  using assms
  by (auto simp: remove_permission_def group_permissions_remove_def split: if_splits sum.splits option.splits)

lemma inherit_action_invariant:
  assumes "inherit_action g gp parent child action s = Inr s'" and "P (fst s)"
    and "\<And>d x. P d \<Longrightarrow> P (d\<lparr>group_permissions := x\<rparr>)"
  shows "P (fst s')"
  using assms
  by (auto simp: inherit_action_def Let_def intro: group_permissions_add_invariant
      split: if_splits sum.splits option.splits)

lemma inherit_pair_invariant:
  assumes "inherit_pair g gp pair s = Inr s'" and "P (fst s)"
    and "\<And>d x. P d \<Longrightarrow> P (d\<lparr>group_permissions := x\<rparr>)"
  shows "P (fst s')"
  using assms(1) unfolding inherit_pair_def
  by (rule for_each_invariant [where P = "\<lambda>s. P (fst s)"])
     (auto intro: assms(2) inherit_action_invariant [where P = P] assms(3))

lemma RuleSet_objects_create_invariant:
  assumes "RuleSet_objects_create group_save d g rulename = Some (Inr (r, d'))" and "P d"
    and "\<And>d r r' d'. P d \<Longrightarrow> rs_pk r = None \<Longrightarrow> RuleSet_super_save d r = Inr (r', d') \<Longrightarrow> P d'"
    and "\<And>d g d'. P d \<Longrightarrow> group_save d g = Some (Inr d') \<Longrightarrow> P d'"
  shows "P d'"
proof -
  let ?r = "\<lparr>rs_pk = None, name = rulename, group = g,
        can_view = False, can_add = False, can_change = False, can_delete = False\<rparr>"
  from assms(1) obtain r1 d1 where s: "RuleSet_super_save d ?r = Inr (r1, d1)"
    and gs: "group_save d1 (group r1) = Some (Inr d')"
    by (auto simp: RuleSet_objects_create_def RuleSet_save_def bind_deep_Inr split: sum.splits)
  have "P d1"
    using assms(3) [OF assms(2) _ s] by simp
  then show ?thesis
    using assms(4) gs by blast
qed

lemma find_ruleset_invariant:
  assumes "find_ruleset group_save g rulesets rulename d = Some (Inr found)" and "P d"
    and "\<And>d r r' d'. P d \<Longrightarrow> rs_pk r = None \<Longrightarrow> RuleSet_super_save d r = Inr (r', d') \<Longrightarrow> P d'"
    and "\<And>d g d'. P d \<Longrightarrow> group_save d g = Some (Inr d') \<Longrightarrow> P d'"
  shows "P (snd found)"
proof (cases "rulesets rulename")
  case (Some ruleset)
  then show ?thesis
    using assms(1,2) by (auto simp: find_ruleset_def)
next
  case None
  show ?thesis
  proof (cases "RuleSet_objects_get d g rulename")
    case (Inr ruleset)
    then show ?thesis
      using assms(1,2) None by (auto simp: find_ruleset_def)
  next
    case (Inl e)
    then have "RuleSet_objects_create group_save d g rulename = Some (Inr (fst found, snd found))"
      using assms(1) None by (auto simp: find_ruleset_def split: if_splits)
    then show ?thesis
      by (rule RuleSet_objects_create_invariant [where P = P, OF _ assms(2) assms(3,4)])
  qed
qed

lemma ruleset_step_Inr:
  assumes "ruleset_step group_save g rulesets r s = Some (Inr s')"
  obtains found where "find_ruleset group_save g rulesets (fst r) (fst s) = Some (Inr found)"
    and "for_each (add_models_of (fst found)) (get_models (site_multi (snd found)) (fst found))
           ((snd s)\<lparr>ruleset_var := Some (fst found)\<rparr>) = Inr (snd s')"
    and "fst s' = snd found"
proof -
  from assms obtain found where
    f: "find_ruleset group_save g rulesets (fst r) (fst s) = Some (Inr found)"
    and rest: "(case for_each (add_models_of (fst found)) (get_models (site_multi (snd found)) (fst found))
                 ((snd s)\<lparr>ruleset_var := Some (fst found)\<rparr>) of
            Inl e \<Rightarrow> Some (Inl e)
          | Inr l1 \<Rightarrow> Some (Inr (snd found, l1))) = Some (Inr s')"
    unfolding ruleset_step_def bind_deep_Inr by blast
  from rest have "for_each (add_models_of (fst found)) (get_models (site_multi (snd found)) (fst found))
           ((snd s)\<lparr>ruleset_var := Some (fst found)\<rparr>) = Inr (snd s') \<and> fst s' = snd found"
    by (cases "for_each (add_models_of (fst found)) (get_models (site_multi (snd found)) (fst found))
           ((snd s)\<lparr>ruleset_var := Some (fst found)\<rparr>)") auto
  then show ?thesis
    using that f by blast
qed

lemma ruleset_step_invariant:
  assumes "ruleset_step group_save g rulesets r s = Some (Inr s')" and "P (fst s)"
    and "\<And>d r r' d'. P d \<Longrightarrow> rs_pk r = None \<Longrightarrow> RuleSet_super_save d r = Inr (r', d') \<Longrightarrow> P d'"
    and "\<And>d g d'. P d \<Longrightarrow> group_save d g = Some (Inr d') \<Longrightarrow> P d'"
  shows "P (fst s')"
proof -
  from assms(1) obtain found where
    f: "find_ruleset group_save g rulesets (fst r) (fst s) = Some (Inr found)"
    and s': "fst s' = snd found"
    by (rule ruleset_step_Inr)
  show ?thesis
    unfolding s' by (rule find_ruleset_invariant [where P = P, OF f assms(2) assms(3,4)])
qed

lemma apply_permissions_Inr:
  assumes "apply_permissions g gp s1 = Inr d'"
  obtains d2 d3 s4 where
    "for_each (add_permission g gp) (permissions_to_add (snd s1)) (fst s1) = Inr d2"
    and "for_each (remove_permission g gp) (permissions_to_delete (snd s1)) d2 = Inr d3"
    and "for_each (inherit_pair g gp) RULESET_CHANGE_INHERIT (d3, snd s1) = Inr s4"
    and "d' = fst s4"
  using assms unfolding apply_permissions_def
  by (auto split: sum.splits)

lemma apply_permissions_invariant:
  assumes "apply_permissions g gp s1 = Inr d'" and "P (fst s1)"
    and perms: "\<And>d x. P d \<Longrightarrow> P (d\<lparr>group_permissions := x\<rparr>)"
  shows "P d'"
proof -
  from assms(1) obtain d2 d3 s4 where
    2: "for_each (add_permission g gp) (permissions_to_add (snd s1)) (fst s1) = Inr d2"
    and 3: "for_each (remove_permission g gp) (permissions_to_delete (snd s1)) d2 = Inr d3"
    and 4: "for_each (inherit_pair g gp) RULESET_CHANGE_INHERIT (d3, snd s1) = Inr s4"
    and 5: "d' = fst s4"
    by (rule apply_permissions_Inr)
  have "P d2"
    by (rule for_each_invariant [where P = P, OF 2 assms(2)])
       (rule add_permission_invariant [where P = P], assumption+, rule perms)
  then have "P d3"
    by (rule for_each_invariant [where P = P, OF 3])
       (rule remove_permission_invariant [where P = P], assumption+, rule perms)
  then have "P (fst (d3, snd s1))"
    by simp
  then have "P (fst s4)"
    by (rule for_each_invariant [where P = "\<lambda>s. P (fst s)", OF 4])
       (rule inherit_pair_invariant [where P = P], assumption+, rule perms)
  then show ?thesis
    by (simp add: 5)
qed

lemma update_group_roles_Inr:
  assumes "update_group_roles group_save d g = Some (Inr d')" and "can_access_database d"
  obtains s1 where
    "for_each_deep (ruleset_step group_save g
          (map_of (map (\<lambda>r. (name r, r)) (rev (group_rule_sets_all d g))))) RULESET_CHOICES
          (d, initial_locals d g) = Some (Inr s1)"
    and "apply_permissions g (group_permission_strings d g) s1 = Inr d'"
  using assms by (auto simp: update_group_roles_def Let_def bind_deep_Inr)

lemma update_group_roles_invariant:
  assumes "update_group_roles group_save d g = Some (Inr d')" and "P d"
    and perms: "\<And>d x. P d \<Longrightarrow> P (d\<lparr>group_permissions := x\<rparr>)"
    and ins: "\<And>d r r' d'. P d \<Longrightarrow> rs_pk r = None \<Longrightarrow> RuleSet_super_save d r = Inr (r', d') \<Longrightarrow> P d'"
    and gs: "\<And>d g d'. P d \<Longrightarrow> group_save d g = Some (Inr d') \<Longrightarrow> P d'"
  shows "P d'"
proof (cases "can_access_database d")
  case False
  then show ?thesis
    using assms(1,2) by (simp add: update_group_roles_def)
next
  case True
  from assms(1) True obtain s1 where
    1: "for_each_deep (ruleset_step group_save g
          (map_of (map (\<lambda>r. (name r, r)) (rev (group_rule_sets_all d g))))) RULESET_CHOICES
          (d, initial_locals d g) = Some (Inr s1)"
    and 2: "apply_permissions g (group_permission_strings d g) s1 = Inr d'"
    by (rule update_group_roles_Inr)
  have "P (fst s1)"
    by (rule for_each_deep_invariant [where P = "\<lambda>s. P (fst s)", OF 1])
       (simp add: assms(2), rule ruleset_step_invariant [where P = P], assumption+, rule ins,
         assumption+, rule gs)
  then show ?thesis
    by (rule apply_permissions_invariant [where P = P, OF 2]) (rule perms)
qed

lemma create_owner_cases:
  "create_owner d inst = Inr d' \<Longrightarrow> d' = d \<or> (\<exists>x. d' = d\<lparr>owners := x\<rparr>)"
  by (auto simp: create_owner_def Owner_create_def Owner_objects_create_def Let_def
      split: if_splits sum.splits option.splits)

lemma Group_save_invariant:
  assumes "Group_save depth d g = Some (Inr d')" and "P d"
    and perms: "\<And>d x. P d \<Longrightarrow> P (d\<lparr>group_permissions := x\<rparr>)"
    and ins: "\<And>d r r' d'. P d \<Longrightarrow> rs_pk r = None \<Longrightarrow> RuleSet_super_save d r = Inr (r', d') \<Longrightarrow> P d'"
    and own: "\<And>d x. P d \<Longrightarrow> P (d\<lparr>owners := x\<rparr>)"
    and grp: "\<And>d g. P d \<Longrightarrow> P (d\<lparr>auth_groups := auth_groups d @ [g]\<rparr>)"
    and val: "\<And>d u d'. P d \<Longrightarrow> validate_user_on_save u d = Inr d' \<Longrightarrow> P d'"
  shows "P d'"
  using assms(1,2)
proof (induction depth arbitrary: d g d')
  case 0
  then show ?case by simp
next
  case (Suc depth)
  let ?d1 = "if g \<in> set (auth_groups d) then d else d\<lparr>auth_groups := auth_groups d @ [g]\<rparr>"
  from Suc.prems(1) obtain d2 d3 where
    1: "create_owner ?d1 (Group_instance g) = Inr d2"
    and 2: "update_group_roles (Group_save depth) d2 g = Some (Inr d3)"
    and 3: "validate_primary_group_on_save d3 g = Inr d'"
    by (auto simp: Group_save_signals_def create_missing_rule_sets_def Let_def bind_deep_Inr
        split: sum.splits)
  have "P ?d1"
    using Suc.prems(2) grp by simp
  then have "P d2"
    using create_owner_cases [OF 1] own by auto
  have "P d3"
    using \<open>P d2\<close>
    by (rule update_group_roles_invariant [where P = P, OF 2 _ perms ins]) (auto intro: Suc.IH)
  from 3 have 4: "for_each validate_user_on_save (group_user_set_all d3 g) d3 = Inr d'"
    by (simp add: validate_primary_group_on_save_def)
  show ?case
    by (rule for_each_invariant [where P = P, OF 4 \<open>P d3\<close>]) (rule val)
qed

lemma validate_user_on_save_cases:
  "validate_user_on_save u d = Inr d' \<Longrightarrow> d' = d \<or> (\<exists>x. d' = d\<lparr>profiles := x\<rparr>)"
  by (auto simp: validate_user_on_save_def UserProfile_save_def UserProfile_super_save_def Let_def
      split: sum.splits option.splits if_splits)

lemma RuleSet_super_save_row:
  assumes "RuleSet_super_save d self = Inr (saved, d1)"
  shows "saved \<in> set (rule_sets d1) \<and> rs_pk saved \<noteq> None
         \<and> (\<forall>r \<in> set (rule_sets d1). name r = name saved \<and> group r = group saved \<longrightarrow> r = saved)
         \<and> name saved = name self \<and> group saved = group self
         \<and> can_view saved = can_view self \<and> can_add saved = can_add self
         \<and> can_change saved = can_change self \<and> can_delete saved = can_delete self"
  using assms
  by (cases "rs_pk self") (auto simp: RuleSet_super_save_def Let_def split: if_splits)

lemma RuleSet_super_save_insert:
  assumes "RuleSet_super_save d r = Inr (r', d')" and "rs_pk r = None"
    and "saved \<in> set (rule_sets d)"
    and "\<forall>x \<in> set (rule_sets d). name x = name saved \<and> group x = group saved \<longrightarrow> x = saved"
  shows "saved \<in> set (rule_sets d')
         \<and> (\<forall>x \<in> set (rule_sets d'). name x = name saved \<and> group x = group saved \<longrightarrow> x = saved)"
proof -
  from assms(1,2) have fresh: "\<not> (\<exists>x \<in> set (rule_sets d). name x = name r \<and> group x = group r)"
    and d': "rule_sets d' = rule_sets d @ [r']" and r': "name r' = name r" "group r' = group r"
    by (auto simp: RuleSet_super_save_def Let_def split: if_splits)
  from fresh assms(3) have "\<not> (name r' = name saved \<and> group r' = group saved)"
    unfolding r' by metis
  then show ?thesis
    using assms(3,4) d' by auto
qed

text \<open>
  C1: when \<^verbatim>\<open>RuleSet.save\<close> completes, the saved row is in the table and is the only row
  of its name and group, whatever the receivers of the group's \<^verbatim>\<open>post_save\<close> have done
  since; it has the flags \<^verbatim>\<open>can_add\<close> and \<^verbatim>\<open>can_delete\<close> that were set; if any of
  \<^verbatim>\<open>can_add\<close>, \<^verbatim>\<open>can_change\<close>, \<^verbatim>\<open>can_delete\<close> was set it has \<^verbatim>\<open>can_view\<close>, and if
  \<^verbatim>\<open>can_add\<close> or \<^verbatim>\<open>can_delete\<close> was set it has \<^verbatim>\<open>can_change\<close>.
\<close>

theorem rule_set_save_normalises:
  assumes "RuleSet_save (Group_save depth) d self = Some (Inr (saved, d'))"
  shows "saved \<in> set (rule_sets d')
         \<and> (\<forall>r \<in> set (rule_sets d'). name r = name self \<and> group r = group self \<longrightarrow> r = saved)
         \<and> can_add saved = can_add self \<and> can_delete saved = can_delete self
         \<and> (can_add self \<or> can_change self \<or> can_delete self \<longrightarrow> can_view saved)
         \<and> (can_add self \<or> can_delete self \<longrightarrow> can_change saved)"
proof -
  define self1 where "self1 = (if can_add self \<or> can_change self \<or> can_delete self
                   then self\<lparr>can_view := True\<rparr> else self)"
  define self2 where "self2 = (if can_add self1 \<or> can_delete self1
                   then self1\<lparr>can_change := True\<rparr> else self1)"
  have "RuleSet_save (Group_save depth) d self =
          (case RuleSet_super_save d self2 of
             Inl e \<Rightarrow> Some (Inl e)
           | Inr (self3, d1) \<Rightarrow>
               bind_deep (Group_save depth d1 (group self3)) (\<lambda>d2. Some (Inr (self3, d2))))"
    unfolding RuleSet_save_def self2_def self1_def Let_def ..
  with assms obtain d1 where s: "RuleSet_super_save d self2 = Inr (saved, d1)"
    and g: "Group_save depth d1 (group saved) = Some (Inr d')"
    by (auto simp: bind_deep_Inr split: sum.splits)
  note row = RuleSet_super_save_row [OF s]
  have flags: "name self2 = name self" "group self2 = group self"
    "can_add self2 = can_add self" "can_delete self2 = can_delete self"
    "can_add self \<or> can_change self \<or> can_delete self \<longrightarrow> can_view self2"
    "can_add self \<or> can_delete self \<longrightarrow> can_change self2"
    by (auto simp: self1_def self2_def)
  let ?P = "\<lambda>x. saved \<in> set (rule_sets x)
         \<and> (\<forall>r \<in> set (rule_sets x). name r = name saved \<and> group r = group saved \<longrightarrow> r = saved)"
  have "?P d1"
    using row by blast
  have "?P d'"
  proof (rule Group_save_invariant [where P = ?P, OF g \<open>?P d1\<close>])
    fix x r r' x'
    assume "?P x" "rs_pk r = None" "RuleSet_super_save x r = Inr (r', x')"
    then show "?P x'"
      using RuleSet_super_save_insert [of x r r' x' saved] by blast
  next
    fix x u x'
    assume "?P x" "validate_user_on_save u x = Inr x'"
    then show "?P x'"
      using validate_user_on_save_cases [of u x x'] by auto
  qed simp_all
  then show ?thesis
    using row flags by simp
qed

text \<open>A new rule set with only \<^verbatim>\<open>can_add\<close> set reads back with all of view, add, change.\<close>

theorem rule_set_save_normalises_witness:
  "RuleSet_save (Group_save 1) (example_db\<lparr>can_access_database := False\<rparr>)
     \<lparr>rs_pk = None, name = ''part'', group = 1,
      can_view = False, can_add = True, can_change = False, can_delete = False\<rparr>
   = Some (Inr (\<lparr>rs_pk = Some 1, name = ''part'', group = 1,
                  can_view = True, can_add = True, can_change = True, can_delete = False\<rparr>,
                example_db\<lparr>can_access_database := False,
                  rule_sets := [\<lparr>rs_pk = Some 1, name = ''part'', group = 1,
                                 can_view = True, can_add = True, can_change = True, can_delete = False\<rparr>],
                  owners := [\<lparr>owner_pk = 1, owner_type = Some group_content_type, owner_id = Some 1\<rparr>]\<rparr>))"
  using rule_set_save_normalises [of 1 "example_db\<lparr>can_access_database := False\<rparr>"
      "\<lparr>rs_pk = None, name = ''part'', group = 1,
      can_view = False, can_add = True, can_change = False, can_delete = False\<rparr>"]
  by (simp add: RuleSet_save_def RuleSet_super_save_def Group_save_signals_def create_owner_def
      Owner_create_def get_owner_def Owner_objects_get_def Owner_objects_create_def
      create_missing_rule_sets_def update_group_roles_def validate_primary_group_on_save_def
      validate_user_on_save_def user_profile_def group_user_set_all_def user_groups_all_def
      example_db_def content_type_of_def pk_of_def group_content_type_def Let_def bind_deep_def)

subsection \<open>The primary group\<close>

lemma profile_valid_same_groups:
  "user_groups d' = user_groups d \<Longrightarrow> auth_groups d' = auth_groups d \<Longrightarrow>
     profile_valid d' = profile_valid d"
  by (simp add: profile_valid_def user_groups_all_def fun_eq_iff split: option.splits)

lemma profile_valid_cleared:
  "profile_valid d (p\<lparr>primary_group := None\<rparr>)"
  by (simp add: profile_valid_def)

lemma UserProfile_super_save_profiles:
  "set (profiles (UserProfile_super_save d self)) \<subseteq> insert self (set (profiles d))"
  "map profile_user (profiles (UserProfile_super_save d self)) = map profile_user (profiles d)
   \<or> (profile_user self \<notin> set (map profile_user (profiles d))
       \<and> map profile_user (profiles (UserProfile_super_save d self))
           = map profile_user (profiles d) @ [profile_user self])"
  "user_groups (UserProfile_super_save d self) = user_groups d"
  "auth_groups (UserProfile_super_save d self) = auth_groups d"
proof -
  have m: "profile_user \<circ> (\<lambda>p. if profile_user p = profile_user self then self else p)
             = profile_user"
    by (auto simp: fun_eq_iff)
  show "set (profiles (UserProfile_super_save d self)) \<subseteq> insert self (set (profiles d))"
    by (auto simp: UserProfile_super_save_def)
  show "map profile_user (profiles (UserProfile_super_save d self)) = map profile_user (profiles d)
   \<or> (profile_user self \<notin> set (map profile_user (profiles d))
       \<and> map profile_user (profiles (UserProfile_super_save d self))
           = map profile_user (profiles d) @ [profile_user self])"
    by (auto simp: UserProfile_super_save_def m)
  show "user_groups (UserProfile_super_save d self) = user_groups d"
    "auth_groups (UserProfile_super_save d self) = auth_groups d"
    by (simp_all add: UserProfile_super_save_def)
qed

lemma UserProfile_super_save_valid:
  assumes "primary_group_valid d" and "profile_valid d self"
  shows "primary_group_valid (UserProfile_super_save d self)"
proof -
  let ?d' = "UserProfile_super_save d self"
  note f = UserProfile_super_save_profiles [of d self]
  have pv: "profile_valid ?d' = profile_valid d"
    by (rule profile_valid_same_groups) (rule f)+
  have "distinct (map profile_user (profiles ?d'))"
    using f(2) assms(1) by (auto simp: primary_group_valid_def)
  moreover have "list_all (profile_valid d) (profiles ?d')"
    using f(1) assms by (auto simp: primary_group_valid_def list_all_iff)
  ultimately show ?thesis
    by (simp add: primary_group_valid_def pv)
qed

lemma UserProfile_save_valid:
  assumes "primary_group_valid d"
  shows "primary_group_valid (snd (UserProfile_save d self))"
proof -
  define self1 where "self1 =
            (case primary_group self of
               None \<Rightarrow> self
             | Some g \<Rightarrow>
                 if g \<notin> set (user_groups_all d (profile_user self))
                 then self\<lparr>primary_group := None\<rparr> else self)"
  have ok: "profile_valid d self1"
    by (simp add: self1_def profile_valid_def split: option.splits)
  have eq: "snd (UserProfile_save d self) = UserProfile_super_save d self1"
    by (simp add: UserProfile_save_def self1_def Let_def)
  show ?thesis
    unfolding eq by (rule UserProfile_super_save_valid [OF assms ok])
qed

lemma primary_group_valid_frame:
  "primary_group_valid (d\<lparr>group_permissions := x\<rparr>) = primary_group_valid d"
  "primary_group_valid (d\<lparr>owners := y\<rparr>) = primary_group_valid d"
  "primary_group_valid (d\<lparr>rule_sets := z\<rparr>) = primary_group_valid d"
  by (simp_all add: primary_group_valid_def
      profile_valid_same_groups [of "d\<lparr>group_permissions := x\<rparr>" d]
      profile_valid_same_groups [of "d\<lparr>owners := y\<rparr>" d]
      profile_valid_same_groups [of "d\<lparr>rule_sets := z\<rparr>" d])

lemma RuleSet_super_save_cases:
  "RuleSet_super_save d r = Inr (r', d') \<Longrightarrow> \<exists>x. d' = d\<lparr>rule_sets := x\<rparr>"
  by (cases "rs_pk r") (auto simp: RuleSet_super_save_def Let_def split: if_splits)

lemma validate_user_on_save_valid:
  "primary_group_valid d \<Longrightarrow> validate_user_on_save u d = Inr d' \<Longrightarrow> primary_group_valid d'"
  by (auto simp: validate_user_on_save_def UserProfile_save_valid split: sum.splits option.splits if_splits)

lemma validate_user_on_delete_valid:
  "primary_group_valid d \<Longrightarrow> validate_user_on_delete g u d = Inr d' \<Longrightarrow> primary_group_valid d'"
  by (auto simp: validate_user_on_delete_def UserProfile_save_valid split: sum.splits option.splits if_splits)

lemma group_change_valid:
  "primary_group_valid d \<Longrightarrow> validate_primary_group_on_group_change d inst action = Inr d'
     \<Longrightarrow> primary_group_valid d'"
  by (auto simp: validate_primary_group_on_group_change_def UserProfile_save_valid
      split: sum.splits option.splits if_splits model_instance.splits)

lemma Group_save_valid:
  assumes "Group_save depth d g = Some (Inr d')" and "primary_group_valid d"
  shows "primary_group_valid d'"
proof (rule Group_save_invariant [where P = primary_group_valid, OF assms])
  fix x r r' x'
  assume "primary_group_valid x" "RuleSet_super_save x r = Inr (r', x')"
  then show "primary_group_valid x'"
    using RuleSet_super_save_cases [of x r r' x'] by (auto simp: primary_group_valid_frame)
next
  fix x h
  assume "primary_group_valid x"
  then show "primary_group_valid (x\<lparr>auth_groups := auth_groups x @ [h]\<rparr>)"
    by (auto simp: primary_group_valid_def profile_valid_def user_groups_all_def list_all_iff
        split: option.splits)
qed (simp_all add: primary_group_valid_frame validate_user_on_save_valid)

lemma Group_delete_valid:
  assumes "Group_delete d g = Inr d'" and "primary_group_valid d"
  shows "primary_group_valid d'"
proof -
  let ?d1 = "d\<lparr>profiles := map (\<lambda>p. if primary_group p = Some g then p\<lparr>primary_group := None\<rparr> else p)
                               (profiles d),
                 rule_sets := filter (\<lambda>r. group r \<noteq> g) (rule_sets d),
                 user_groups := filter (\<lambda>row. snd row \<noteq> g) (user_groups d),
                 group_permissions := filter (\<lambda>row. fst row \<noteq> g) (group_permissions d),
                 auth_groups := removeAll g (auth_groups d)\<rparr>"
  from assms(1) obtain d2 where 1: "delete_owner ?d1 (Group_instance g) = Inr d2"
    and 2: "for_each (validate_user_on_delete g) (group_user_set_all d2 g) d2 = Inr d'"
    by (auto simp: Group_delete_def Let_def validate_primary_group_on_delete_def split: sum.splits)
  have m: "profile_user \<circ> (\<lambda>p. if primary_group p = Some g then p\<lparr>primary_group := None\<rparr> else p)
             = profile_user"
    by (auto simp: fun_eq_iff)
  have "primary_group_valid ?d1"
    using assms(2)
    by (auto simp: primary_group_valid_def profile_valid_def user_groups_all_def list_all_iff m
        split: option.splits)
  moreover from 1 have "\<exists>x. d2 = ?d1\<lparr>owners := x\<rparr>"
    by (auto simp: delete_owner_def split: sum.splits option.splits)
  ultimately have "primary_group_valid d2"
    by (auto simp: primary_group_valid_frame)
  then show ?thesis
    by (rule for_each_invariant [where P = primary_group_valid, OF 2])
       (rule validate_user_on_delete_valid)
qed

lemma user_profile_Inr:
  "user_profile d u = Inr p \<Longrightarrow> p \<in> set (profiles d) \<and> profile_user p = u"
  by (auto simp: user_profile_def find_Some_iff split: option.splits)

lemma UserProfile_save_cleared:
  assumes "user_profile d u = Inr p" and "distinct (map profile_user (profiles d))"
  shows "user_profile (snd (UserProfile_save d (p\<lparr>primary_group := None\<rparr>))) u
           = Inr (p\<lparr>primary_group := None\<rparr>)"
proof -
  from assms(1) obtain ps where ps: "find (\<lambda>q. profile_user q = u) (profiles d) = Some p"
    by (auto simp: user_profile_def split: option.splits)
  have f: "find (\<lambda>q. profile_user q = u) (map (\<lambda>q. if profile_user q = u then p' else q) qs) = Some p'"
    if "find (\<lambda>q. profile_user q = u) qs = Some p" and "profile_user p' = u" for qs p'
    using that by (induction qs) (auto split: if_splits)
  have "\<exists>q \<in> set (profiles d). profile_user q = u"
    using user_profile_Inr [OF assms(1)] by blast
  then show ?thesis
    using user_profile_Inr [OF assms(1)] f [OF ps, of "p\<lparr>primary_group := None\<rparr>"]
    by (auto simp: UserProfile_save_def UserProfile_super_save_def user_profile_def Let_def)
qed

lemma group_change_repairs:
  assumes "validate_primary_group_on_group_change x (User_instance u) action = Inr d'"
    and "action = post_add \<or> action = post_remove"
    and "distinct (map profile_user (profiles x))"
    and "\<forall>p \<in> set (profiles x). profile_user p \<noteq> u \<longrightarrow> profile_valid x p"
  shows "primary_group_valid d'"
proof -
  from assms(1,2) obtain p where p: "user_profile x u = Inr p"
    by (auto simp: validate_primary_group_on_group_change_def split: sum.splits)
  note pin = user_profile_Inr [OF p]
  have only: "q = p" if "q \<in> set (profiles x)" and "profile_user q = u" for q
    using that pin assms(3) by (auto simp: distinct_map inj_on_def)
  show ?thesis
  proof (cases "profile_valid x p")
    case True
    then have "d' = x"
      using assms(1,2) p pin
      by (auto simp: validate_primary_group_on_group_change_def profile_valid_def
          split: option.splits if_splits)
    moreover have "profile_valid x q" if q: "q \<in> set (profiles x)" for q
    proof (cases "profile_user q = u")
      case same: True
      then have "q = p"
        using only q by blast
      then show ?thesis
        using True by simp
    next
      case False
      then show ?thesis
        using assms(4) q by blast
    qed
    ultimately show ?thesis
      using assms(3) by (simp add: primary_group_valid_def list_all_iff)
  next
    case False
    then have d': "d' = UserProfile_super_save x (p\<lparr>primary_group := None\<rparr>)"
      using assms(1,2) p pin
      by (auto simp: validate_primary_group_on_group_change_def profile_valid_def
          UserProfile_save_def Let_def split: option.splits if_splits)
    have ex: "\<exists>q \<in> set (profiles x). profile_user q = u"
      using pin by blast
    have ps: "profiles d' = map (\<lambda>q. if profile_user q = u then p\<lparr>primary_group := None\<rparr> else q)
                              (profiles x)"
      using ex pin unfolding d' by (simp add: UserProfile_super_save_def)
    note f = UserProfile_super_save_profiles [of x "p\<lparr>primary_group := None\<rparr>"]
    have pv: "profile_valid d' = profile_valid x"
      unfolding d' by (rule profile_valid_same_groups) (rule f)+
    have "profile_valid x q" if q: "q \<in> set (profiles d')" for q
    proof -
      from q obtain q0 where q0: "q0 \<in> set (profiles x)"
        and qq: "q = (if profile_user q0 = u then p\<lparr>primary_group := None\<rparr> else q0)"
        unfolding ps by auto
      show ?thesis
      proof (cases "profile_user q0 = u")
        case True
        then show ?thesis
          by (simp add: qq profile_valid_cleared)
      next
        case False
        then show ?thesis
          using assms(4) q0 by (simp add: qq)
      qed
    qed
    moreover have "distinct (map profile_user (profiles d'))"
      using f(2) assms(3) ex unfolding d' by auto
    ultimately show ?thesis
      by (simp add: primary_group_valid_def list_all_iff pv)
  qed
qed

lemma pre_action_skipped:
  "action \<noteq> post_add \<Longrightarrow> action \<noteq> post_remove \<Longrightarrow>
     validate_primary_group_on_group_change d inst action = Inr d"
  by (simp add: validate_primary_group_on_group_change_def)

lemma user_groups_add_valid:
  assumes "user_groups_add d u g = Inr d'" and "primary_group_valid d"
  shows "primary_group_valid d'"
proof -
  let ?d1 = "d\<lparr>user_groups := (if (u, g) \<in> set (user_groups d) then user_groups d
                                  else user_groups d @ [(u, g)])\<rparr>"
  from assms(1) have h: "validate_primary_group_on_group_change ?d1 (User_instance u) post_add = Inr d'"
    by (simp add: user_groups_add_def m2m_change_def pre_action_skipped)
  have "primary_group_valid ?d1"
    using assms(2)
    by (auto simp: primary_group_valid_def profile_valid_def user_groups_all_def list_all_iff
        split: option.splits)
  then show ?thesis
    using h by (rule group_change_valid)
qed

lemma user_groups_remove_valid:
  assumes "user_groups_remove d u g = Inr d'" and "primary_group_valid d"
  shows "primary_group_valid d'"
proof -
  let ?d1 = "d\<lparr>user_groups := filter (\<lambda>row. row \<noteq> (u, g)) (user_groups d)\<rparr>"
  from assms(1) have h: "validate_primary_group_on_group_change ?d1 (User_instance u) post_remove = Inr d'"
    by (simp add: user_groups_remove_def m2m_change_def pre_action_skipped)
  show ?thesis
    by (rule group_change_repairs [OF h])
       (use assms(2) in \<open>auto simp: primary_group_valid_def profile_valid_def
          user_groups_all_def list_all_iff split: option.splits\<close>)
qed

lemma user_groups_remove_clears:
  assumes "user_groups_remove d u g = Inr d'" and "primary_group_valid d"
    and "user_profile d u = Inr p" and "primary_group p = Some g"
  shows "user_profile d' u = Inr (p\<lparr>primary_group := None\<rparr>)"
proof -
  let ?d1 = "d\<lparr>user_groups := filter (\<lambda>row. row \<noteq> (u, g)) (user_groups d)\<rparr>"
  from assms(1) have h: "validate_primary_group_on_group_change ?d1 (User_instance u) post_remove = Inr d'"
    by (simp add: user_groups_remove_def m2m_change_def pre_action_skipped)
  have p1: "user_profile ?d1 u = Inr p"
    using assms(3) by (simp add: user_profile_def)
  have "g \<notin> set (user_groups_all ?d1 u)"
    by (simp add: user_groups_all_def)
  then have "d' = snd (UserProfile_save ?d1 (p\<lparr>primary_group := None\<rparr>))"
    using h p1 assms(4) by (simp add: validate_primary_group_on_group_change_def)
  moreover have "distinct (map profile_user (profiles ?d1))"
    using assms(2) by (simp add: primary_group_valid_def)
  ultimately show ?thesis
    using UserProfile_save_cleared [OF p1] by simp
qed

text \<open>
  The operations that keep the invariant (a primary group that is set is a group of the
  profile's user): saving a profile, saving a group, deleting a group, and adding or
  removing a membership from the user's side; removing the membership in the primary
  group clears the field. From the group's side the receiver raises.
\<close>

theorem primary_group_invariant:
  assumes "primary_group_valid d"
  shows "primary_group_valid (snd (UserProfile_save d self))
     \<and> (Group_save depth d g = Some (Inr d1) \<longrightarrow> primary_group_valid d1)
     \<and> (Group_delete d g = Inr d2 \<longrightarrow> primary_group_valid d2)
     \<and> (user_groups_add d u g = Inr d3 \<longrightarrow> primary_group_valid d3)
     \<and> (user_groups_remove d u g = Inr d4 \<longrightarrow>
           primary_group_valid d4
           \<and> (\<forall>p. user_profile d u = Inr p \<and> primary_group p = Some g
                  \<longrightarrow> user_profile d4 u = Inr (p\<lparr>primary_group := None\<rparr>)))
     \<and> group_user_set_add d g u = Inl AttributeError
     \<and> group_user_set_remove d g u = Inl AttributeError"
proof -
  have 1: "primary_group_valid (snd (UserProfile_save d self))"
    by (rule UserProfile_save_valid [OF assms])
  have 2: "Group_save depth d g = Some (Inr d1) \<longrightarrow> primary_group_valid d1"
  proof
    assume h: "Group_save depth d g = Some (Inr d1)"
    show "primary_group_valid d1"
      by (rule Group_save_valid [OF h assms])
  qed
  have 3: "Group_delete d g = Inr d2 \<longrightarrow> primary_group_valid d2"
  proof
    assume h: "Group_delete d g = Inr d2"
    show "primary_group_valid d2"
      by (rule Group_delete_valid [OF h assms])
  qed
  have 4: "user_groups_add d u g = Inr d3 \<longrightarrow> primary_group_valid d3"
  proof
    assume h: "user_groups_add d u g = Inr d3"
    show "primary_group_valid d3"
      by (rule user_groups_add_valid [OF h assms])
  qed
  have 5: "user_groups_remove d u g = Inr d4 \<longrightarrow>
           primary_group_valid d4
           \<and> (\<forall>p. user_profile d u = Inr p \<and> primary_group p = Some g
                  \<longrightarrow> user_profile d4 u = Inr (p\<lparr>primary_group := None\<rparr>))"
  proof (intro impI conjI allI)
    assume h: "user_groups_remove d u g = Inr d4"
    show "primary_group_valid d4"
      by (rule user_groups_remove_valid [OF h assms])
    fix p
    assume "user_profile d u = Inr p \<and> primary_group p = Some g"
    then have p: "user_profile d u = Inr p" and pg: "primary_group p = Some g"
      by simp_all
    show "user_profile d4 u = Inr (p\<lparr>primary_group := None\<rparr>)"
      by (rule user_groups_remove_clears [OF h assms p pg])
  qed
  have 6: "group_user_set_add d g u = Inl AttributeError"
    by (simp add: group_user_set_add_def m2m_change_def pre_action_skipped
        validate_primary_group_on_group_change_def)
  have 7: "group_user_set_remove d g u = Inl AttributeError"
    by (simp add: group_user_set_remove_def m2m_change_def pre_action_skipped
        validate_primary_group_on_group_change_def)
  show ?thesis
    by (intro conjI) (rule 1 2 3 4 5 6 7)+
qed

text \<open>The user leaves the primary group: the field is cleared.\<close>

theorem primary_group_invariant_witness:
  "primary_group_valid example_db
   \<and> user_groups_remove example_db 1 1
       = Inr (example_db\<lparr>user_groups := [], profiles := [\<lparr>profile_user = 1, primary_group = None\<rparr>]\<rparr>)
   \<and> primary_group_valid
        (example_db\<lparr>user_groups := [], profiles := [\<lparr>profile_user = 1, primary_group = None\<rparr>]\<rparr>)"
proof -
  have v: "primary_group_valid example_db"
    by (simp add: primary_group_valid_def profile_valid_def example_db_def user_groups_all_def)
  have r: "user_groups_remove example_db 1 1
       = Inr (example_db\<lparr>user_groups := [], profiles := [\<lparr>profile_user = 1, primary_group = None\<rparr>]\<rparr>)"
    by (simp add: user_groups_remove_def m2m_change_def validate_primary_group_on_group_change_def
        user_profile_def user_groups_all_def UserProfile_save_def UserProfile_super_save_def
        example_db_def Let_def)
  show ?thesis
    using primary_group_invariant [OF v, where u = 1 and g = 1
        and ?d4.0 = "example_db\<lparr>user_groups := [], profiles := [\<lparr>profile_user = 1, primary_group = None\<rparr>]\<rparr>"] v r
    by simp
qed

subsection \<open>Authorization queries and the session cache\<close>

lemma rule_sets_loop_eq:
  "rule_sets_loop rules role permission result
     \<longleftrightarrow> result \<or> (\<exists>rule \<in> set rules. name rule = role \<and> rule_grants rule permission)"
  by (induction rules) (auto simp: rule_grants_def)

lemma groups_loop_eq:
  "groups_loop d gs role permission result
     \<longleftrightarrow> result \<or> (\<exists>g \<in> set gs. \<exists>rule \<in> set (group_rule_sets_all d g).
                        name rule = role \<and> rule_grants rule permission)"
  by (induction gs arbitrary: result) (auto simp: rule_sets_loop_eq)

lemma role_cache_key_inj:
  "role_cache_key usr role permission = role_cache_key usr role' permission \<longleftrightarrow> role = role'"
  by (simp add: role_cache_key_def)

lemma role_granted_cache:
  "role_granted (d\<lparr>session_cache := c\<rparr>) = role_granted d"
  by (simp add: role_granted_def user_groups_all_def group_rule_sets_all_def fun_eq_iff)

lemma governs_cache:
  "governs (d\<lparr>session_cache := c\<rparr>) = governs d"
  by (simp add: governs_def fun_eq_iff)

lemma check_user_role_coherent:
  assumes "\<not> is_superuser usr" and "cache_coherent d usr permission" and "role \<in> set RULESET_NAMES"
  shows "\<exists>c. check_user_role d (Some usr) role permission
               = (role_granted d (user_pk usr) role permission, d\<lparr>session_cache := c\<rparr>)
             \<and> cache_coherent (d\<lparr>session_cache := c\<rparr>) usr permission"
proof (cases "get_session_cache d (role_cache_key usr role permission)")
  case None
  let ?res = "role_granted d (user_pk usr) role permission"
  let ?c = "(role_cache_key usr role permission, ?res) # session_cache d"
  have r: "groups_loop d (user_groups_all d (user_pk usr)) role permission False = ?res"
    by (simp add: groups_loop_eq role_granted_def)
  have 1: "check_user_role d (Some usr) role permission = (?res, d\<lparr>session_cache := ?c\<rparr>)"
    using assms(1) None by (simp add: check_user_role_def Let_def r set_session_cache_def)
  have 2: "cache_coherent (d\<lparr>session_cache := ?c\<rparr>) usr permission"
    using assms(2)
    by (auto simp: cache_coherent_def get_session_cache_def role_cache_key_inj role_granted_cache
        split: option.splits)
  show ?thesis
    using 1 2 by blast
next
  case (Some v)
  then have v: "v = role_granted d (user_pk usr) role permission"
    using assms(2,3) by (auto simp: cache_coherent_def)
  have 1: "check_user_role d (Some usr) role permission
             = (role_granted d (user_pk usr) role permission, d\<lparr>session_cache := session_cache d\<rparr>)"
    using assms(1) Some v by (simp add: check_user_role_def Let_def)
  show ?thesis
    using 1 assms(2) by (intro exI [of _ "session_cache d"]) simp
qed

lemma roles_loop_coherent:
  assumes "\<not> is_superuser usr" and "cache_coherent d usr permission"
    and "set roles \<subseteq> set RULESET_NAMES"
    and "\<forall>role \<in> set roles. map_of (get_ruleset_models (site_multi d)) role \<noteq> None"
  shows "\<exists>c. roles_loop d (Some usr) table permission roles
               = Inr (\<exists>role \<in> set roles. governs d role table
                                          \<and> role_granted d (user_pk usr) role permission,
                      d\<lparr>session_cache := c\<rparr>)
             \<and> cache_coherent (d\<lparr>session_cache := c\<rparr>) usr permission"
  using assms(2-4)
proof (induction roles arbitrary: d)
  case Nil
  then show ?case
    by (intro exI [of _ "session_cache d"]) simp
next
  case (Cons role roles)
  from Cons.prems(3) obtain ms where ms: "map_of (get_ruleset_models (site_multi d)) role = Some ms"
    by auto
  show ?case
  proof (cases "table \<in> set ms")
    case False
    then have g: "\<not> governs d role table"
      by (simp add: governs_def ms)
    from Cons.IH [of d] Cons.prems obtain c where
      c: "roles_loop d (Some usr) table permission roles
               = Inr (\<exists>role \<in> set roles. governs d role table
                                          \<and> role_granted d (user_pk usr) role permission,
                      d\<lparr>session_cache := c\<rparr>)"
      and co: "cache_coherent (d\<lparr>session_cache := c\<rparr>) usr permission"
      by auto
    show ?thesis
      using c co g False by (intro exI [of _ c]) (simp add: ms)
  next
    case True
    then have g: "governs d role table"
      by (simp add: governs_def ms)
    from check_user_role_coherent [OF assms(1) Cons.prems(1), of role] Cons.prems(2)
    obtain c1 where
      c1: "check_user_role d (Some usr) role permission
               = (role_granted d (user_pk usr) role permission, d\<lparr>session_cache := c1\<rparr>)"
      and co1: "cache_coherent (d\<lparr>session_cache := c1\<rparr>) usr permission"
      by auto
    show ?thesis
    proof (cases "role_granted d (user_pk usr) role permission")
      case True
      then show ?thesis
        using c1 co1 g \<open>table \<in> set ms\<close> by (intro exI [of _ c1]) (auto simp: ms)
    next
      case False
      let ?d1 = "d\<lparr>session_cache := c1\<rparr>"
      from Cons.IH [of ?d1] co1 Cons.prems(2,3) obtain c where
        c: "roles_loop ?d1 (Some usr) table permission roles
               = Inr (\<exists>role \<in> set roles. governs ?d1 role table
                                          \<and> role_granted ?d1 (user_pk usr) role permission,
                      ?d1\<lparr>session_cache := c\<rparr>)"
        and co: "cache_coherent (?d1\<lparr>session_cache := c\<rparr>) usr permission"
        by auto
      show ?thesis
        using c co c1 False \<open>table \<in> set ms\<close>
        by (intro exI [of _ c]) (simp add: ms role_granted_cache governs_cache)
    qed
  qed
qed

lemma ruleset_models_defined:
  "\<forall>role \<in> set RULESET_NAMES. map_of (get_ruleset_models multi) role \<noteq> None"
  by (simp add: RULESET_NAMES_def RULESET_CHOICES_def get_ruleset_models_def)

lemma inherit_loop_True:
  "fst (inherit_loop d user table pairs) \<Longrightarrow>
     table \<in> set (map (\<lambda>pair. fst pair @ ''_'' @ snd pair) pairs)"
  by (induction d user table pairs rule: inherit_loop.induct)
     (auto simp: Let_def split: prod.splits if_splits)

text \<open>
  C6, as the spec states it: a grant by a governing rule set makes
  \<^verbatim>\<open>check_table_permission\<close> return true. With a stale entry in the session cache it does
  not: group 1 holds a \<^verbatim>\<open>part\<close> rule set that grants view, \<^verbatim>\<open>part\<close> governs
  \<^verbatim>\<open>part_part\<close>, and user 1 of group 1 is denied, because \<^verbatim>\<open>check_user_role\<close> answers from
  the cache.
\<close>

theorem stale_cache_counterexample:
  "role_granted stale_cache_db 1 ''part'' ''view''
   \<and> governs stale_cache_db ''part'' ''part_part''
   \<and> map_sum id fst
        (check_table_permission stale_cache_db (Some \<lparr>user_pk = 1, is_superuser = False\<rparr>)
           ''part_part'' ''view'') = Inr False"
proof -
  have 1: "role_granted stale_cache_db 1 ''part'' ''view''"
    by (simp add: role_granted_def stale_cache_db_def example_db_def user_groups_all_def
        group_rule_sets_all_def rule_grants_def)
  have 2: "governs stale_cache_db ''part'' ''part_part''"
    by (simp add: governs_def stale_cache_db_def example_db_def get_ruleset_models_def)
  have k: "role_cache_key usr role ''view'' = ''role_1_'' @ role @ ''_view''"
    if "user_pk usr = 1" for usr role
    using that by (simp add: role_cache_key_def digit_char_def)
  have 3: "map_sum id fst
        (check_table_permission stale_cache_db (Some \<lparr>user_pk = 1, is_superuser = False\<rparr>)
           ''part_part'' ''view'') = Inr False"
    by (simp add: check_table_permission_def get_ruleset_ignore_def RULESET_NAMES_def
        RULESET_CHOICES_def RULESET_CHANGE_INHERIT_def get_ruleset_models_def check_user_role_def
        get_session_cache_def set_session_cache_def k user_groups_all_def group_rule_sets_all_def
        stale_cache_db_def example_db_def Let_def)
  show ?thesis
    using 1 2 3 by simp
qed

text \<open>
  C6, amended: for a user who is not a superuser, a table that is not exempt, and a session
  cache that holds no stale answer for the user and the permission,
  \<^verbatim>\<open>check_table_permission\<close> returns (it does not raise); it returns true when a rule set
  that governs the table grants the permission to a group of the user; and when it returns
  true although no governing rule set grants the permission, the table is a child of the
  inheritance table.
\<close>

theorem table_permission_union:
  assumes "\<not> is_superuser usr" and "table \<notin> set get_ruleset_ignore"
    and "cache_coherent d usr permission"
  shows "\<exists>b d'. check_table_permission d (Some usr) table permission = Inr (b, d')
      \<and> ((\<exists>role \<in> set RULESET_NAMES.
             governs d role table \<and> role_granted d (user_pk usr) role permission) \<longrightarrow> b)
      \<and> (b \<longrightarrow> (\<exists>role \<in> set RULESET_NAMES.
                    governs d role table \<and> role_granted d (user_pk usr) role permission)
               \<or> table \<in> set (map (\<lambda>pair. fst pair @ ''_'' @ snd pair) RULESET_CHANGE_INHERIT))"
proof -
  let ?granted = "\<exists>role \<in> set RULESET_NAMES.
             governs d role table \<and> role_granted d (user_pk usr) role permission"
  from roles_loop_coherent [OF assms(1,3) subset_refl, of table] ruleset_models_defined
  obtain c where c: "roles_loop d (Some usr) table permission RULESET_NAMES
                       = Inr (?granted, d\<lparr>session_cache := c\<rparr>)"
    by blast
  show ?thesis
  proof (cases ?granted)
    case True
    then have "check_table_permission d (Some usr) table permission
                 = Inr (True, d\<lparr>session_cache := c\<rparr>)"
      using assms(1,2) c by (simp add: check_table_permission_def)
    then show ?thesis
      using True by blast
  next
    case False
    let ?r = "inherit_loop (d\<lparr>session_cache := c\<rparr>) (Some usr) table RULESET_CHANGE_INHERIT"
    have "check_table_permission d (Some usr) table permission = Inr (fst ?r, snd ?r)"
      using assms(1,2) c False by (simp add: check_table_permission_def)
    moreover have "fst ?r \<longrightarrow>
        table \<in> set (map (\<lambda>pair. fst pair @ ''_'' @ snd pair) RULESET_CHANGE_INHERIT)"
      using inherit_loop_True by blast
    ultimately show ?thesis
      using False by blast
  qed
qed

text \<open>The same database with an empty session cache: access is granted.\<close>

theorem table_permission_union_witness:
  "map_sum id fst
     (check_table_permission (stale_cache_db\<lparr>session_cache := []\<rparr>)
        (Some \<lparr>user_pk = 1, is_superuser = False\<rparr>) ''part_part'' ''view'') = Inr True"
proof -
  have k: "role_cache_key usr role ''view'' = ''role_1_'' @ role @ ''_view''"
    if "user_pk usr = 1" for usr role
    using that by (simp add: role_cache_key_def digit_char_def)
  have co: "cache_coherent (stale_cache_db\<lparr>session_cache := []\<rparr>)
              \<lparr>user_pk = 1, is_superuser = False\<rparr> ''view''"
    by (simp add: cache_coherent_def get_session_cache_def)
  have ne: "''part_part'' \<notin> set get_ruleset_ignore"
    by (simp add: get_ruleset_ignore_def)
  show ?thesis
    using table_permission_union [of "\<lparr>user_pk = 1, is_superuser = False\<rparr>" "''part_part''"
        "stale_cache_db\<lparr>session_cache := []\<rparr>" "''view''", OF _ ne co]
    by (simp add: check_table_permission_def get_ruleset_ignore_def RULESET_NAMES_def
        RULESET_CHOICES_def RULESET_CHANGE_INHERIT_def get_ruleset_models_def check_user_role_def
        get_session_cache_def set_session_cache_def k user_groups_all_def group_rule_sets_all_def
        stale_cache_db_def example_db_def Let_def)
qed

subsection \<open>Marking permissions\<close>

lemma add_model_Inr:
  assumes "add_model nm action allowed l = Inr l'"
  obtains m s where "model_var l = Some m" and "get_model_permission_string m action = Inr s"
    and "model_var l' = model_var l" and "ruleset_var l' = ruleset_var l"
    and "set (permissions_to_add l') = (if allowed then insert s (set (permissions_to_add l))
                                        else set (permissions_to_add l))"
    and "set (permissions_to_delete l') =
           (if allowed then set (permissions_to_delete l) - {s}
            else if s \<in> set (permissions_to_add l) then set (permissions_to_delete l)
            else insert s (set (permissions_to_delete l)))"
  using assms
  by (auto simp: add_model_def split: if_splits option.splits sum.splits)

lemma mark_collects:
  assumes "mark c l = Inr l'"
    and "set (permissions_to_add l) = P" and "set (permissions_to_delete l) = N - P"
  shows "set (permissions_to_add l') = P \<union> marked True [c]
         \<and> set (permissions_to_delete l') = (N \<union> marked False [c]) - (P \<union> marked True [c])"
proof -
  obtain m action allowed where c: "c = (m, action, allowed)"
    by (cases c) auto
  from assms(1) have a: "add_model m action allowed (l\<lparr>model_var := Some m\<rparr>) = Inr l'"
    by (simp add: mark_def c)
  from a obtain s where s: "get_model_permission_string m action = Inr s"
    and A: "set (permissions_to_add l') = (if allowed then insert s P else P)"
    and D: "set (permissions_to_delete l') =
           (if allowed then (N - P) - {s}
            else if s \<in> P then N - P
            else insert s (N - P))"
    by (rule add_model_Inr) (use assms(2,3) in auto)
  have m: "marked b [c] = (if b = allowed then {s} else {})" for b
    by (auto simp: marked_def c s)
  show ?thesis
    unfolding A D m [of True] m [of False] by (cases allowed) auto
qed

lemma marked_Cons:
  "marked b (c # calls) = marked b [c] \<union> marked b calls"
  by (auto simp: marked_def)

lemma marks_collect:
  assumes "for_each mark calls l = Inr l'"
    and "set (permissions_to_add l) = P" and "set (permissions_to_delete l) = N - P"
  shows "set (permissions_to_add l') = P \<union> marked True calls
         \<and> set (permissions_to_delete l') = (N \<union> marked False calls) - (P \<union> marked True calls)"
  using assms
proof (induction calls arbitrary: l P N)
  case Nil
  then show ?case
    by (auto simp: marked_def)
next
  case (Cons c calls)
  from Cons.prems(1) obtain l1 where 1: "mark c l = Inr l1"
    and 2: "for_each mark calls l1 = Inr l'"
    by (auto split: sum.splits)
  note h = mark_collects [OF 1 Cons.prems(2,3)]
  have "set (permissions_to_add l') = (P \<union> marked True [c]) \<union> marked True calls
         \<and> set (permissions_to_delete l')
             = ((N \<union> marked False [c]) \<union> marked False calls)
               - ((P \<union> marked True [c]) \<union> marked True calls)"
    by (rule Cons.IH [OF 2]) (use h in auto)
  then show ?case
    by (simp add: marked_Cons [of _ c calls] Un_assoc)
qed

text \<open>
  C5: after any sequence of marks that starts from empty sets, whatever its order, the set
  to add holds the strings marked allowed, the set to delete holds the strings marked
  forbidden and never allowed, and the two are disjoint: a string that any mark allows
  is not in the set to delete.
\<close>

theorem add_wins_over_remove:
  assumes "for_each mark calls l = Inr l'"
    and "permissions_to_add l = []" and "permissions_to_delete l = []"
  shows "set (permissions_to_add l') = marked True calls
         \<and> set (permissions_to_delete l') = marked False calls - marked True calls
         \<and> set (permissions_to_add l') \<inter> set (permissions_to_delete l') = {}"
  using marks_collect [OF assms(1), of "{}" "{}"] assms(2,3) by auto

text \<open>Forbidden, allowed, forbidden again: the permission is to be added, not deleted.\<close>

theorem add_wins_over_remove_witness:
  "for_each mark
     [(''part_part'', ''view'', False), (''part_part'', ''view'', True),
      (''part_part'', ''view'', False), (''part_part'', ''add'', False)]
     \<lparr>permissions_to_add = [], permissions_to_delete = [], model_var = None, ruleset_var = None\<rparr>
   = Inr \<lparr>permissions_to_add = [''part.view_part''], permissions_to_delete = [''part.add_part''],
          model_var = Some ''part_part'', ruleset_var = None\<rparr>
   \<and> marked True
        [(''part_part'', ''view'', False), (''part_part'', ''view'', True),
         (''part_part'', ''view'', False), (''part_part'', ''add'', False)] = {''part.view_part''}"
proof -
  have e: "for_each mark
     [(''part_part'', ''view'', False), (''part_part'', ''view'', True),
      (''part_part'', ''view'', False), (''part_part'', ''add'', False)]
     \<lparr>permissions_to_add = [], permissions_to_delete = [], model_var = None, ruleset_var = None\<rparr>
   = Inr \<lparr>permissions_to_add = [''part.view_part''], permissions_to_delete = [''part.add_part''],
          model_var = Some ''part_part'', ruleset_var = None\<rparr>"
    by (simp add: mark_def add_model_def get_model_permission_string_def split_model_def)
  from add_wins_over_remove [OF e] have "marked True
        [(''part_part'', ''view'', False), (''part_part'', ''view'', True),
         (''part_part'', ''view'', False), (''part_part'', ''add'', False)] = {''part.view_part''}"
    by simp
  with e show ?thesis
    by (intro conjI)
qed

subsection \<open>The loop over the rule sets as a sequence of marks\<close>

lemma for_each_append:
  "for_each body (xs @ ys) s =
     (case for_each body xs s of Inl e \<Rightarrow> Inl e | Inr s' \<Rightarrow> for_each body ys s')"
  by (induction xs arbitrary: s) (auto split: sum.splits)

lemma for_each_concat_map:
  "for_each body (concat (map f xs)) s = for_each (\<lambda>x. for_each body (f x)) xs s"
  by (induction xs arbitrary: s) (auto simp: for_each_append split: sum.splits)

lemma add_model_model_var:
  "add_model nm action allowed l = Inr l' \<Longrightarrow> model_var l' = model_var l"
  by (erule add_model_Inr) simp

lemma add_model_name_unused:
  "add_model nm action allowed l = add_model nm' action allowed l"
  by (simp add: add_model_def)

lemma add_models_of_marks:
  "add_models_of ruleset m l = for_each mark (model_calls ruleset m) l"
proof -
  let ?l0 = "l\<lparr>model_var := Some m\<rparr>"
  have keep: "l'\<lparr>model_var := Some m\<rparr> = l'" if "model_var l' = Some m" for l' :: locals
    using that by simp
  show ?thesis
  proof (cases "add_model m ''view'' (can_view ruleset) ?l0")
    case (Inl e)
    then show ?thesis
      by (simp add: add_models_of_def model_calls_def mark_def Let_def)
  next
    case 1: (Inr l1)
    then have k1: "l1\<lparr>model_var := Some m\<rparr> = l1"
      using add_model_model_var [OF 1] by (intro keep) simp
    show ?thesis
    proof (cases "add_model m ''add'' (can_add ruleset) l1")
      case (Inl e)
      then show ?thesis
        using 1 k1 by (simp add: add_models_of_def model_calls_def mark_def Let_def)
    next
      case 2: (Inr l2)
      then have k2: "l2\<lparr>model_var := Some m\<rparr> = l2"
        using add_model_model_var [OF 2] add_model_model_var [OF 1] by (intro keep) simp
      show ?thesis
      proof (cases "add_model m ''change'' (can_change ruleset) l2")
        case (Inl e)
        then show ?thesis
          using 1 2 k1 k2 by (simp add: add_models_of_def model_calls_def mark_def Let_def)
      next
        case 3: (Inr l3)
        then have k3: "l3\<lparr>model_var := Some m\<rparr> = l3"
          using add_model_model_var [OF 3] add_model_model_var [OF 2] add_model_model_var [OF 1]
          by (intro keep) simp
        show ?thesis
          using 1 2 3 k1 k2 k3
          by (cases "add_model m ''delete'' (can_delete ruleset) l3")
             (simp_all add: add_models_of_def model_calls_def mark_def Let_def)
      qed
    qed
  qed
qed

lemma ruleset_models_marks:
  "for_each (add_models_of ruleset) (get_models multi ruleset) l
     = for_each mark (ruleset_calls multi ruleset) l"
proof -
  have "add_models_of ruleset = (\<lambda>m. for_each mark (model_calls ruleset m))"
    by (simp add: fun_eq_iff add_models_of_marks)
  then show ?thesis
    by (simp add: ruleset_calls_def for_each_concat_map)
qed

lemma mark_ruleset_var:
  "mark c (l\<lparr>ruleset_var := x\<rparr>) = map_sum id (\<lambda>l'. l'\<lparr>ruleset_var := x\<rparr>) (mark c l)"
  by (cases c) (auto simp: mark_def add_model_def split: option.splits sum.splits)

lemma marks_ruleset_var:
  "for_each mark calls (l\<lparr>ruleset_var := x\<rparr>)
     = map_sum id (\<lambda>l'. l'\<lparr>ruleset_var := x\<rparr>) (for_each mark calls l)"
proof (induction calls arbitrary: l)
  case Nil
  then show ?case by simp
next
  case (Cons c calls)
  show ?case
    by (cases "mark c l") (simp_all add: mark_ruleset_var Cons.IH)
qed

lemma find_ruleset_hit:
  "rulesets n = Some r \<Longrightarrow> find_ruleset group_save g rulesets n d = Some (Inr (r, d))"
  by (simp add: find_ruleset_def)

lemma ruleset_step_hit:
  assumes "rulesets (fst c) = Some r"
  shows "ruleset_step group_save g rulesets c (d, l)
           = (case for_each mark (ruleset_calls (site_multi d) r) l of
                Inl e \<Rightarrow> Some (Inl e)
              | Inr l1 \<Rightarrow> Some (Inr (d, l1\<lparr>ruleset_var := Some r\<rparr>)))"
  using assms
  by (cases "for_each mark (ruleset_calls (site_multi d) r) l")
     (simp_all add: ruleset_step_def find_ruleset_def bind_deep_def
        ruleset_models_marks marks_ruleset_var)

lemma rulesets_loop_marks:
  assumes "\<forall>c \<in> set choices. rulesets (fst c) \<noteq> None"
  shows "for_each_deep (ruleset_step group_save g rulesets) choices (d, l)
           = (case for_each mark (pass_calls (site_multi d) rulesets (map fst choices)) l of
                Inl e \<Rightarrow> Some (Inl e)
              | Inr l1 \<Rightarrow>
                  Some (Inr (d, l1\<lparr>ruleset_var :=
                                     (if choices = [] then ruleset_var l
                                      else rulesets (fst (last choices)))\<rparr>)))"
  using assms
proof (induction choices arbitrary: l)
  case Nil
  then show ?case
    by (simp add: pass_calls_def)
next
  case (Cons c choices)
  from Cons.prems obtain r where r: "rulesets (fst c) = Some r"
    by auto
  note step = ruleset_step_hit [where rulesets = rulesets and c = c and r = r, OF r]
  let ?calls = "pass_calls (site_multi d) rulesets (map fst choices)"
  have pc: "pass_calls (site_multi d) rulesets (fst c # map fst choices)
              = ruleset_calls (site_multi d) r @ ?calls"
    by (simp add: pass_calls_def r)
  show ?case
  proof (cases "for_each mark (ruleset_calls (site_multi d) r) l")
    case (Inl e)
    then show ?thesis
      by (simp add: step pc for_each_append bind_deep_def)
  next
    case (Inr l1)
    have IH: "for_each_deep (ruleset_step group_save g rulesets) choices (d, l1\<lparr>ruleset_var := Some r\<rparr>)
           = (case for_each mark ?calls (l1\<lparr>ruleset_var := Some r\<rparr>) of
                Inl e \<Rightarrow> Some (Inl e)
              | Inr l2 \<Rightarrow>
                  Some (Inr (d, l2\<lparr>ruleset_var :=
                                     (if choices = [] then ruleset_var (l1\<lparr>ruleset_var := Some r\<rparr>)
                                      else rulesets (fst (last choices)))\<rparr>)))"
      using Cons.prems by (intro Cons.IH) simp
    show ?thesis
      by (cases "for_each mark ?calls l1")
         (simp_all add: step pc for_each_append bind_deep_def Inr IH marks_ruleset_var r)
  qed
qed

text \<open>
  C9: the invariant does not hold after every change of the membership. The receiver
  \<^verbatim>\<open>validate_primary_group_on_group_change\<close> acts on \<^verbatim>\<open>post_add\<close> and \<^verbatim>\<open>post_remove\<close> only
  and reads \<^verbatim>\<open>instance.profile\<close>. After \<^verbatim>\<open>user.groups.clear()\<close> the user of the example is in
  no group and the profile still names group 1 as primary group: the invariant held before
  and is broken after. A removal from the group's side, \<^verbatim>\<open>group.user_set.remove(user)\<close>,
  raises \<^verbatim>\<open>AttributeError\<close> and clears nothing.
\<close>

theorem clear_breaks_primary_group:
  "primary_group_valid example_db
   \<and> user_groups_clear example_db 1 = Inr (example_db\<lparr>user_groups := []\<rparr>)
   \<and> user_groups_all (example_db\<lparr>user_groups := []\<rparr>) 1 = []
   \<and> user_profile (example_db\<lparr>user_groups := []\<rparr>) 1
       = Inr \<lparr>profile_user = 1, primary_group = Some 1\<rparr>
   \<and> \<not> primary_group_valid (example_db\<lparr>user_groups := []\<rparr>)
   \<and> group_user_set_remove example_db 1 1 = Inl AttributeError"
  by (simp add: primary_group_valid_def profile_valid_def user_groups_clear_def
      group_user_set_remove_def m2m_change_def validate_primary_group_on_group_change_def
      user_profile_def user_groups_all_def example_db_def)

subsection \<open>The three loops that write the group's permissions\<close>

lemma get_permission_object_frame:
  "get_permission_object (d\<lparr>group_permissions := x\<rparr>) s = get_permission_object d s"
  by (simp add: get_permission_object_def
      cong: list.case_cong sum.case_cong prod.case_cong if_cong)

lemma resolved_insert:
  "resolved d g (insert s S) =
     (case get_permission_object d s of Inr (Some p) \<Rightarrow> insert (g, p) (resolved d g S)
      | _ \<Rightarrow> resolved d g S)"
  by (auto simp: resolved_def split: sum.splits option.splits)

lemma resolved_empty: "resolved d g {} = {}"
  by (simp add: resolved_def)

lemma resolved_Un: "resolved d g (S \<union> T) = resolved d g S \<union> resolved d g T"
  by (auto simp: resolved_def)

lemma add_loop:
  assumes "\<forall>s \<in> set perms - set gp. \<forall>e. get_permission_object d s \<noteq> Inl e"
  shows "\<exists>x'. for_each (add_permission g gp) perms (d\<lparr>group_permissions := x\<rparr>)
                 = Inr (d\<lparr>group_permissions := x'\<rparr>)
              \<and> set x' = set x \<union> resolved d g (set perms - set gp)"
  using assms
proof (induction perms arbitrary: x)
  case Nil
  then show ?case
    by (intro exI [of _ x]) (simp add: resolved_empty)
next
  case (Cons s perms)
  have step: "\<exists>x1. add_permission g gp s (d\<lparr>group_permissions := x\<rparr>) = Inr (d\<lparr>group_permissions := x1\<rparr>)
                \<and> set x1 = set x \<union> resolved d g ({s} - set gp)"
  proof (cases "s \<in> set gp")
    case True
    then show ?thesis
      by (intro exI [of _ x]) (simp add: add_permission_def resolved_empty)
  next
    case False
    then have ne: "\<forall>e. get_permission_object d s \<noteq> Inl e"
      using Cons.prems by simp
    have sing: "{s} - set gp = {s}"
      using False by auto
    show ?thesis
    proof (cases "get_permission_object d s")
      case (Inl e)
      then show ?thesis
        using ne by simp
    next
      case (Inr po)
      show ?thesis
      proof (cases po)
        case None
        then show ?thesis
          using False Inr
          by (intro exI [of _ x])
             (simp add: add_permission_def get_permission_object_frame resolved_insert resolved_empty sing)
      next
        case (Some p)
        then show ?thesis
          using False Inr
          by (intro exI [of _ "if (g, p) \<in> set x then x else x @ [(g, p)]"])
             (auto simp: add_permission_def get_permission_object_frame resolved_insert
                resolved_empty group_permissions_add_def sing)
      qed
    qed
  qed
  then obtain x1 where 1: "add_permission g gp s (d\<lparr>group_permissions := x\<rparr>) = Inr (d\<lparr>group_permissions := x1\<rparr>)"
    and s1: "set x1 = set x \<union> resolved d g ({s} - set gp)"
    by blast
  from Cons.IH [of x1] Cons.prems obtain x' where
    2: "for_each (add_permission g gp) perms (d\<lparr>group_permissions := x1\<rparr>) = Inr (d\<lparr>group_permissions := x'\<rparr>)"
    and s2: "set x' = set x1 \<union> resolved d g (set perms - set gp)"
    by auto
  have "set (s # perms) - set gp = ({s} - set gp) \<union> (set perms - set gp)"
    by auto
  then have "set x' = set x \<union> resolved d g (set (s # perms) - set gp)"
    using s1 s2 by (simp only: resolved_Un) auto
  then show ?case
    using 1 2 by (intro exI [of _ x']) simp
qed

lemma remove_loop:
  assumes "\<forall>s \<in> set perms \<inter> set gp. \<forall>e. get_permission_object d s \<noteq> Inl e"
  shows "\<exists>x'. for_each (remove_permission g gp) perms (d\<lparr>group_permissions := x\<rparr>)
                 = Inr (d\<lparr>group_permissions := x'\<rparr>)
              \<and> set x' = set x - resolved d g (set perms \<inter> set gp)"
  using assms
proof (induction perms arbitrary: x)
  case Nil
  then show ?case
    by (intro exI [of _ x]) (simp add: resolved_empty)
next
  case (Cons s perms)
  have step: "\<exists>x1. remove_permission g gp s (d\<lparr>group_permissions := x\<rparr>) = Inr (d\<lparr>group_permissions := x1\<rparr>)
                \<and> set x1 = set x - resolved d g ({s} \<inter> set gp)"
  proof (cases "s \<in> set gp")
    case False
    then show ?thesis
      by (intro exI [of _ x]) (simp add: remove_permission_def resolved_empty)
  next
    case True
    then have ne: "\<forall>e. get_permission_object d s \<noteq> Inl e"
      using Cons.prems by simp
    have sing: "{s} \<inter> set gp = {s}"
      using True by auto
    show ?thesis
    proof (cases "get_permission_object d s")
      case (Inl e)
      then show ?thesis
        using ne by simp
    next
      case (Inr po)
      show ?thesis
      proof (cases po)
        case None
        then show ?thesis
          using True Inr
          by (intro exI [of _ x])
             (simp add: remove_permission_def get_permission_object_frame resolved_insert resolved_empty sing)
      next
        case (Some p)
        then show ?thesis
          using True Inr
          by (intro exI [of _ "filter (\<lambda>row. row \<noteq> (g, p)) x"])
             (auto simp: remove_permission_def get_permission_object_frame resolved_insert
                resolved_empty group_permissions_remove_def sing)
      qed
    qed
  qed
  then obtain x1 where 1: "remove_permission g gp s (d\<lparr>group_permissions := x\<rparr>) = Inr (d\<lparr>group_permissions := x1\<rparr>)"
    and s1: "set x1 = set x - resolved d g ({s} \<inter> set gp)"
    by blast
  from Cons.IH [of x1] Cons.prems obtain x' where
    2: "for_each (remove_permission g gp) perms (d\<lparr>group_permissions := x1\<rparr>) = Inr (d\<lparr>group_permissions := x'\<rparr>)"
    and s2: "set x' = set x1 - resolved d g (set perms \<inter> set gp)"
    by auto
  have "set (s # perms) \<inter> set gp = ({s} \<inter> set gp) \<union> (set perms \<inter> set gp)"
    by auto
  then have "set x' = set x - resolved d g (set (s # perms) \<inter> set gp)"
    using s1 s2 by (simp only: resolved_Un) auto
  then show ?case
    using 1 2 by (intro exI [of _ x']) simp
qed

lemma add_model_ok:
  assumes "action \<in> set RULESET_PERMISSIONS" and "model_ok l"
  shows "\<exists>l1. add_model nm action allowed l = Inr l1 \<and> model_ok l1 \<and> ruleset_var l1 = ruleset_var l"
proof -
  from assms(2) obtain m x where m: "model_var l = Some m" and x: "split_model m = Inr x"
    by (auto simp: model_ok_def)
  obtain mdl app where "x = (mdl, app)"
    by (cases x) auto
  then have ps: "get_model_permission_string m action = Inr (app @ ''.'' @ action @ ''_'' @ mdl)"
    by (simp add: get_model_permission_string_def x)
  show ?thesis
    using assms(1) m x ps
    by (auto simp: add_model_def model_ok_def RULESET_PERMISSIONS_def)
qed

lemma inherit_strings_single:
  "inherit_strings G [(parent, child)] [action] =
     (if parent @ ''.'' @ action @ ''_'' @ parent \<in> G \<and> parent @ ''.'' @ action @ ''_'' @ child \<notin> G
      then {parent @ ''.'' @ action @ ''_'' @ child} else {})"
  by (auto simp: inherit_strings_def)

lemma inherit_strings_actions:
  "inherit_strings G pairs (a # as) = inherit_strings G pairs [a] \<union> inherit_strings G pairs as"
  by (auto simp: inherit_strings_def)

lemma inherit_strings_pairs:
  "inherit_strings G (pair # pairs) as = inherit_strings G [pair] as \<union> inherit_strings G pairs as"
  by (auto simp: inherit_strings_def)

lemma inherit_strings_Nil:
  "inherit_strings G pairs [] = {}" "inherit_strings G [] as = {}"
  by (auto simp: inherit_strings_def)

lemma inherit_action_step:
  assumes "action \<in> set RULESET_PERMISSIONS" and "model_ok l" and "ruleset_var l \<noteq> None"
    and "\<forall>s \<in> inherit_strings (set gp) [(parent, child)] [action]. \<forall>e. get_permission_object d s \<noteq> Inl e"
  shows "\<exists>x' l'. inherit_action g gp parent child action (d\<lparr>group_permissions := x\<rparr>, l)
                    = Inr (d\<lparr>group_permissions := x'\<rparr>, l')
           \<and> set x' = set x \<union> resolved d g (inherit_strings (set gp) [(parent, child)] [action])
           \<and> model_ok l' \<and> ruleset_var l' \<noteq> None"
proof (cases "parent @ ''.'' @ action @ ''_'' @ parent \<in> set gp
              \<and> parent @ ''.'' @ action @ ''_'' @ child \<notin> set gp")
  case False
  then have "inherit_action g gp parent child action (d\<lparr>group_permissions := x\<rparr>, l)
               = Inr (d\<lparr>group_permissions := x\<rparr>, l)"
    by (auto simp: inherit_action_def Let_def)
  then show ?thesis
    using False assms(2,3)
    by (intro exI [of _ x] exI [of _ l]) (auto simp: inherit_strings_single resolved_empty)
next
  case True
  let ?c = "parent @ ''.'' @ action @ ''_'' @ child"
  from assms(3) obtain r where r: "ruleset_var l = Some r"
    by auto
  from add_model_ok [OF assms(1,2), of "parent @ ''_'' @ child" "can_delete r"] obtain l1 where
    l1: "add_model (parent @ ''_'' @ child) action (can_delete r) l = Inr l1"
    and ok: "model_ok l1" and rv: "ruleset_var l1 = ruleset_var l"
    by blast
  have I: "inherit_strings (set gp) [(parent, child)] [action] = {?c}"
    using True by (simp add: inherit_strings_single)
  have ne: "\<forall>e. get_permission_object d ?c \<noteq> Inl e"
    using assms(4) unfolding I by simp
  show ?thesis
  proof (cases "get_permission_object d ?c")
    case (Inl e)
    then show ?thesis
      using ne by simp
  next
    case (Inr po)
    show ?thesis
    proof (cases po)
      case None
      then have "inherit_action g gp parent child action (d\<lparr>group_permissions := x\<rparr>, l)
               = Inr (d\<lparr>group_permissions := x\<rparr>, l1)"
        using True r l1 Inr
        by (simp add: inherit_action_def Let_def get_permission_object_frame)
      then show ?thesis
        using ok rv assms(3) Inr None
        by (intro exI [of _ x] exI [of _ l1]) (simp add: I resolved_insert resolved_empty)
    next
      case (Some p)
      then have "inherit_action g gp parent child action (d\<lparr>group_permissions := x\<rparr>, l)
               = Inr (d\<lparr>group_permissions := (if (g, p) \<in> set x then x else x @ [(g, p)])\<rparr>, l1)"
        using True r l1 Inr
        by (simp add: inherit_action_def Let_def get_permission_object_frame
            group_permissions_add_def)
      then show ?thesis
        using ok rv assms(3) Inr Some
        by (intro exI [of _ "if (g, p) \<in> set x then x else x @ [(g, p)]"] exI [of _ l1])
           (auto simp: I resolved_insert resolved_empty)
    qed
  qed
qed

lemma inherit_pair_loop:
  assumes "set as \<subseteq> set RULESET_PERMISSIONS" and "model_ok l" and "ruleset_var l \<noteq> None"
    and "\<forall>s \<in> inherit_strings (set gp) [pair] as. \<forall>e. get_permission_object d s \<noteq> Inl e"
  shows "\<exists>x' l'. for_each (inherit_action g gp (fst pair) (snd pair)) as (d\<lparr>group_permissions := x\<rparr>, l)
                    = Inr (d\<lparr>group_permissions := x'\<rparr>, l')
           \<and> set x' = set x \<union> resolved d g (inherit_strings (set gp) [pair] as)
           \<and> model_ok l' \<and> ruleset_var l' \<noteq> None"
  using assms
proof (induction as arbitrary: x l)
  case Nil
  then show ?case
    by (intro exI [of _ x] exI [of _ l]) (simp add: inherit_strings_Nil resolved_empty)
next
  case (Cons a as)
  have I: "inherit_strings (set gp) [pair] (a # as)
             = inherit_strings (set gp) [(fst pair, snd pair)] [a] \<union> inherit_strings (set gp) [pair] as"
    using inherit_strings_actions [of "set gp" "[pair]" a as] by simp
  from Cons.prems(4) have ne1: "\<forall>s \<in> inherit_strings (set gp) [(fst pair, snd pair)] [a].
                                  \<forall>e. get_permission_object d s \<noteq> Inl e"
    and ne2: "\<forall>s \<in> inherit_strings (set gp) [pair] as. \<forall>e. get_permission_object d s \<noteq> Inl e"
    unfolding I by auto
  from Cons.prems(1) have a: "a \<in> set RULESET_PERMISSIONS" and as: "set as \<subseteq> set RULESET_PERMISSIONS"
    by auto
  from inherit_action_step [OF a Cons.prems(2,3) ne1, of g x] obtain x1 l1 where
    1: "inherit_action g gp (fst pair) (snd pair) a (d\<lparr>group_permissions := x\<rparr>, l)
          = Inr (d\<lparr>group_permissions := x1\<rparr>, l1)"
    and s1: "set x1 = set x \<union> resolved d g (inherit_strings (set gp) [(fst pair, snd pair)] [a])"
    and ok1: "model_ok l1" and rv1: "ruleset_var l1 \<noteq> None"
    by blast
  from Cons.IH [OF as ok1 rv1 ne2, of x1] obtain x' l' where
    2: "for_each (inherit_action g gp (fst pair) (snd pair)) as (d\<lparr>group_permissions := x1\<rparr>, l1)
          = Inr (d\<lparr>group_permissions := x'\<rparr>, l')"
    and s2: "set x' = set x1 \<union> resolved d g (inherit_strings (set gp) [pair] as)"
    and ok2: "model_ok l'" and rv2: "ruleset_var l' \<noteq> None"
    by blast
  have "set x' = set x \<union> resolved d g (inherit_strings (set gp) [pair] (a # as))"
    unfolding I resolved_Un s2 s1 by auto
  then show ?case
    using 1 2 ok2 rv2 by (intro exI [of _ x'] exI [of _ l']) simp
qed

lemma inherit_loop_result:
  assumes "set as \<subseteq> set RULESET_PERMISSIONS" and "model_ok l" and "ruleset_var l \<noteq> None"
    and "\<forall>s \<in> inherit_strings (set gp) pairs as. \<forall>e. get_permission_object d s \<noteq> Inl e"
  shows "\<exists>x' l'. for_each (\<lambda>pair. for_each (inherit_action g gp (fst pair) (snd pair)) as) pairs
                     (d\<lparr>group_permissions := x\<rparr>, l)
                    = Inr (d\<lparr>group_permissions := x'\<rparr>, l')
           \<and> set x' = set x \<union> resolved d g (inherit_strings (set gp) pairs as)
           \<and> model_ok l' \<and> ruleset_var l' \<noteq> None"
  using assms(2-4)
proof (induction pairs arbitrary: x l)
  case Nil
  then show ?case
    by (intro exI [of _ x] exI [of _ l]) (simp add: inherit_strings_Nil resolved_empty)
next
  case (Cons pair pairs)
  note I = inherit_strings_pairs [of "set gp" pair pairs as]
  from Cons.prems(3) have ne1: "\<forall>s \<in> inherit_strings (set gp) [pair] as.
                                  \<forall>e. get_permission_object d s \<noteq> Inl e"
    and ne2: "\<forall>s \<in> inherit_strings (set gp) pairs as. \<forall>e. get_permission_object d s \<noteq> Inl e"
    unfolding I by auto
  from inherit_pair_loop [OF assms(1) Cons.prems(1,2) ne1, of g x] obtain x1 l1 where
    1: "for_each (inherit_action g gp (fst pair) (snd pair)) as (d\<lparr>group_permissions := x\<rparr>, l)
          = Inr (d\<lparr>group_permissions := x1\<rparr>, l1)"
    and s1: "set x1 = set x \<union> resolved d g (inherit_strings (set gp) [pair] as)"
    and ok1: "model_ok l1" and rv1: "ruleset_var l1 \<noteq> None"
    by blast
  from Cons.IH [OF ok1 rv1 ne2, of x1] obtain x' l' where
    2: "for_each (\<lambda>pair. for_each (inherit_action g gp (fst pair) (snd pair)) as) pairs
          (d\<lparr>group_permissions := x1\<rparr>, l1) = Inr (d\<lparr>group_permissions := x'\<rparr>, l')"
    and s2: "set x' = set x1 \<union> resolved d g (inherit_strings (set gp) pairs as)"
    and ok2: "model_ok l'" and rv2: "ruleset_var l' \<noteq> None"
    by blast
  have "set x' = set x \<union> resolved d g (inherit_strings (set gp) (pair # pairs) as)"
    unfolding I resolved_Un s2 s1 by auto
  then show ?case
    using 1 2 ok2 rv2 by (intro exI [of _ x'] exI [of _ l']) simp
qed

subsection \<open>A pass when every rule set exists\<close>

lemma table_models_split:
  "\<forall>ms \<in> set (map snd (get_ruleset_models multi)). \<forall>m \<in> set ms. \<exists>x. split_model m = Inr x"
  by (cases multi) (simp_all add: get_ruleset_models_def split_model_def)

lemma get_models_split:
  assumes "m \<in> set (get_models multi r)"
  shows "\<exists>x. split_model m = Inr x"
proof (cases "map_of (get_ruleset_models multi) (name r)")
  case None
  then show ?thesis
    using assms by (simp add: get_models_def)
next
  case (Some ms)
  then have "ms \<in> set (map snd (get_ruleset_models multi))"
    using map_of_SomeD [OF Some] by force
  moreover have "m \<in> set ms"
    using assms Some by (simp add: get_models_def)
  ultimately show ?thesis
    using table_models_split by blast
qed

lemma pass_calls_valid:
  assumes "c \<in> set (pass_calls multi rulesets names)"
  shows "fst (snd c) \<in> set RULESET_PERMISSIONS \<and> (\<exists>x. split_model (fst c) = Inr x)"
proof -
  from assms obtain r m where "m \<in> set (get_models multi r)" and "c \<in> set (model_calls r m)"
    by (auto simp: pass_calls_def ruleset_calls_def split: option.splits)
  then show ?thesis
    using get_models_split [of m multi r]
    by (auto simp: model_calls_def RULESET_PERMISSIONS_def)
qed

lemma marks_succeed:
  assumes "\<forall>c \<in> set calls. fst (snd c) \<in> set RULESET_PERMISSIONS \<and> (\<exists>x. split_model (fst c) = Inr x)"
  shows "\<exists>l'. for_each mark calls l = Inr l' \<and> (model_ok l \<or> calls \<noteq> [] \<longrightarrow> model_ok l')"
  using assms
proof (induction calls arbitrary: l)
  case Nil
  then show ?case by simp
next
  case (Cons c calls)
  obtain m action allowed where c: "c = (m, action, allowed)"
    by (cases c) auto
  from Cons.prems have a: "action \<in> set RULESET_PERMISSIONS" and "\<exists>x. split_model m = Inr x"
    by (auto simp: c)
  then have "model_ok (l\<lparr>model_var := Some m\<rparr>)"
    by (simp add: model_ok_def)
  from add_model_ok [OF a this, of m allowed] obtain l1 where
    1: "mark c l = Inr l1" and ok1: "model_ok l1"
    by (auto simp: mark_def c)
  from Cons.IH [of l1] Cons.prems obtain l' where
    2: "for_each mark calls l1 = Inr l'" and "model_ok l1 \<or> calls \<noteq> [] \<longrightarrow> model_ok l'"
    by auto
  then show ?case
    using 1 ok1 by simp
qed

lemma rulesets_of_name:
  "rulesets_of d g n = Some r \<Longrightarrow> name r = n"
  by (auto simp: rulesets_of_def dest!: map_of_SomeD)

lemma pass_calls_nonempty:
  assumes "\<forall>n \<in> set RULESET_NAMES. rulesets_of d g n \<noteq> None"
  shows "pass_calls multi (rulesets_of d g) RULESET_NAMES \<noteq> []"
proof -
  from assms obtain r where r: "rulesets_of d g ''admin'' = Some r"
    by (auto simp: RULESET_NAMES_def RULESET_CHOICES_def)
  have "name r = ''admin''"
    by (rule rulesets_of_name [OF r])
  then have "get_models multi r \<noteq> []"
    by (cases multi) (simp_all add: get_models_def get_ruleset_models_def)
  then obtain m ms where "get_models multi r = m # ms"
    by (cases "get_models multi r") auto
  then show ?thesis
    using r by (simp add: pass_calls_def RULESET_NAMES_def RULESET_CHOICES_def ruleset_calls_def
        model_calls_def)
qed

lemma update_group_roles_result:
  fixes d :: db and g :: gid
  defines "calls \<equiv> pass_calls (site_multi d) (rulesets_of d g) RULESET_NAMES"
    and "G \<equiv> set (group_permission_strings d g)"
  defines "A \<equiv> marked True calls"
    and "D \<equiv> marked False calls - marked True calls"
    and "I \<equiv> inherit_strings G RULESET_CHANGE_INHERIT [''view'', ''change'', ''add'', ''delete'']"
  assumes access: "can_access_database d"
    and hits: "\<forall>n \<in> set RULESET_NAMES. rulesets_of d g n \<noteq> None"
    and found: "\<forall>s \<in> (A - G) \<union> (D \<inter> G) \<union> I. \<forall>e. get_permission_object d s \<noteq> Inl e"
  shows "\<exists>x. update_group_roles group_save d g = Some (Inr (d\<lparr>group_permissions := x\<rparr>))
           \<and> set x = ((set (group_permissions d) \<union> resolved d g (A - G))
                        - resolved d g (D \<inter> G)) \<union> resolved d g I"
proof -
  let ?l0 = "initial_locals d g"
  let ?gp = "group_permission_strings d g"
  from marks_succeed [of calls ?l0] pass_calls_valid pass_calls_nonempty [OF hits]
  obtain lm where lm: "for_each mark calls ?l0 = Inr lm" and ok: "model_ok lm"
    unfolding calls_def by blast
  have e: "set (permissions_to_add ?l0) = {}" "set (permissions_to_delete ?l0) = {} - {}"
    by (simp_all add: initial_locals_def)
  from marks_collect [OF lm e]
  have A: "set (permissions_to_add lm) = A" and D: "set (permissions_to_delete lm) = D"
    by (auto simp: A_def D_def)
  have h: "\<forall>c \<in> set RULESET_CHOICES. rulesets_of d g (fst c) \<noteq> None"
    using hits by (simp add: RULESET_NAMES_def)
  let ?l1 = "lm\<lparr>ruleset_var := rulesets_of d g (fst (last RULESET_CHOICES))\<rparr>"
  have ne: "RULESET_CHOICES \<noteq> []"
    by (simp add: RULESET_CHOICES_def)
  have loop: "for_each_deep (ruleset_step group_save g (rulesets_of d g)) RULESET_CHOICES (d, ?l0)
                = Some (Inr (d, ?l1))"
    using rulesets_loop_marks [where rulesets = "rulesets_of d g" and choices = RULESET_CHOICES
        and d = d and l = ?l0 and g = g and group_save = group_save, OF h] lm ne
    by (simp add: calls_def RULESET_NAMES_def)
  have rv: "ruleset_var ?l1 \<noteq> None"
    using h ne by simp
  have ok1: "model_ok ?l1"
    using ok by (simp add: model_ok_def)
  have dd: "d\<lparr>group_permissions := group_permissions d\<rparr> = d"
    by simp
  have f1: "\<forall>s \<in> set (permissions_to_add ?l1) - set ?gp. \<forall>e. get_permission_object d s \<noteq> Inl e"
    using found by (simp add: A G_def)
  from add_loop [OF f1, of g "group_permissions d"]
  obtain x1 where 1: "for_each (add_permission g ?gp) (permissions_to_add ?l1) d
                        = Inr (d\<lparr>group_permissions := x1\<rparr>)"
    and s1: "set x1 = set (group_permissions d) \<union> resolved d g (A - G)"
    by (auto simp: A G_def dd)
  have f2: "\<forall>s \<in> set (permissions_to_delete ?l1) \<inter> set ?gp. \<forall>e. get_permission_object d s \<noteq> Inl e"
    using found by (simp add: D G_def)
  from remove_loop [OF f2, of g x1]
  obtain x2 where 2: "for_each (remove_permission g ?gp) (permissions_to_delete ?l1)
                        (d\<lparr>group_permissions := x1\<rparr>) = Inr (d\<lparr>group_permissions := x2\<rparr>)"
    and s2: "set x2 = set x1 - resolved d g (D \<inter> G)"
    by (auto simp: D G_def)
  have acts: "set [''view'', ''change'', ''add'', ''delete''] \<subseteq> set RULESET_PERMISSIONS"
    by (simp add: RULESET_PERMISSIONS_def)
  have f3: "\<forall>s \<in> inherit_strings (set ?gp) RULESET_CHANGE_INHERIT [''view'', ''change'', ''add'', ''delete''].
              \<forall>e. get_permission_object d s \<noteq> Inl e"
    using found by (simp add: I_def G_def)
  from inherit_loop_result [OF acts ok1 rv f3, of g x2]
  obtain x3 l3 where 3: "for_each (\<lambda>pair. for_each (inherit_action g ?gp (fst pair) (snd pair))
                             [''view'', ''change'', ''add'', ''delete'']) RULESET_CHANGE_INHERIT
                          (d\<lparr>group_permissions := x2\<rparr>, ?l1) = Inr (d\<lparr>group_permissions := x3\<rparr>, l3)"
    and s3: "set x3 = set x2 \<union> resolved d g I"
    by (auto simp: I_def G_def)
  have ip: "inherit_pair g ?gp = (\<lambda>pair. for_each (inherit_action g ?gp (fst pair) (snd pair))
                             [''view'', ''change'', ''add'', ''delete''])"
    by (simp add: fun_eq_iff inherit_pair_def)
  have "apply_permissions g ?gp (d, ?l1) = Inr (d\<lparr>group_permissions := x3\<rparr>)"
    using 1 2 3 by (simp add: apply_permissions_def ip)
  then have "update_group_roles group_save d g = Some (Inr (d\<lparr>group_permissions := x3\<rparr>))"
    using access loop
    by (simp add: update_group_roles_def Let_def bind_deep_def rulesets_of_def)
  then show ?thesis
    using s1 s2 s3 by (intro exI [of _ x3]) simp
qed

subsection \<open>Two passes in a row\<close>

lemma marked_code:
  "marked b calls =
     set (concat (map (\<lambda>c. if snd (snd c) = b
                            then (case get_model_permission_string (fst c) (fst (snd c)) of
                                    Inr s \<Rightarrow> [s] | Inl e \<Rightarrow> [])
                            else []) calls))"
  by (auto simp: marked_def split: sum.splits if_splits) force+

lemma build_rulesets:
  "rulesets_of (build_view_db\<lparr>group_permissions := x\<rparr>) 1 =
     map_of (map (\<lambda>r. (name r, r)) (rev (rule_sets build_view_db)))"
  by (simp add: rulesets_of_def group_rule_sets_all_def build_view_db_def part_tables_db_def
      example_db_def rule_set_row_def)

lemma build_hits:
  "\<forall>n \<in> set RULESET_NAMES. rulesets_of (build_view_db\<lparr>group_permissions := x\<rparr>) 1 n \<noteq> None"
  unfolding build_rulesets
  by (simp add: RULESET_NAMES_def RULESET_CHOICES_def build_view_db_def rule_set_row_def)

lemma build_allowed:
  "marked True (pass_calls False (rulesets_of (build_view_db\<lparr>group_permissions := x\<rparr>) 1) RULESET_NAMES)
     = {''part.view_part'', ''part.view_partcategory'', ''part.view_bomitem'',
        ''part.view_bomitemsubstitute'', ''build.view_build'', ''build.view_builditem'',
        ''build.view_buildline'', ''stock.view_stockitem'', ''stock.view_stocklocation''}"
  unfolding build_rulesets marked_code
  by (simp add: RULESET_NAMES_def RULESET_CHOICES_def build_view_db_def rule_set_row_def
      pass_calls_def ruleset_calls_def model_calls_def get_models_def get_ruleset_models_def
      get_model_permission_string_def split_model_def)

lemma resolved_frame:
  "resolved (d\<lparr>group_permissions := x\<rparr>) g S = resolved d g S"
  by (simp add: resolved_def get_permission_object_frame)

lemma group_permission_strings_set:
  "set (group_permission_strings (d\<lparr>group_permissions := x\<rparr>) g)
     = (\<lambda>p. app_label p @ ''.'' @ codename p) ` {p. (g, p) \<in> set x}"
  by (force simp: group_permission_strings_def group_permissions_all_def natural_key_def image_iff)

lemma pass_keeps_held:
  fixes d :: db and g :: gid
  defines "calls \<equiv> pass_calls (site_multi d) (rulesets_of d g) RULESET_NAMES"
    and "actions \<equiv> [''view'', ''change'', ''add'', ''delete'']"
  assumes access: "can_access_database d"
    and hits: "\<forall>n \<in> set RULESET_NAMES. rulesets_of d g n \<noteq> None"
    and A: "marked True calls = A"
    and G: "set (group_permission_strings d g) = G" and sub: "G \<subseteq> A"
    and found: "\<forall>s \<in> (A - G) \<union> inherit_strings G RULESET_CHANGE_INHERIT actions.
                  \<forall>e. get_permission_object d s \<noteq> Inl e"
  shows "\<exists>x. update_group_roles group_save d g = Some (Inr (d\<lparr>group_permissions := x\<rparr>))
           \<and> set x = set (group_permissions d) \<union> resolved d g (A - G)
                       \<union> resolved d g (inherit_strings G RULESET_CHANGE_INHERIT actions)"
proof -
  have DG: "(marked False calls - marked True calls) \<inter> set (group_permission_strings d g) = {}"
    unfolding A G using sub by auto
  have f: "\<forall>s \<in> (marked True calls - set (group_permission_strings d g))
              \<union> ((marked False calls - marked True calls) \<inter> set (group_permission_strings d g))
              \<union> inherit_strings (set (group_permission_strings d g)) RULESET_CHANGE_INHERIT actions.
             \<forall>e. get_permission_object d s \<noteq> Inl e"
    unfolding DG unfolding A G using found by simp
  from update_group_roles_result [OF access hits f [unfolded calls_def actions_def], of group_save]
  obtain x where 1: "update_group_roles group_save d g = Some (Inr (d\<lparr>group_permissions := x\<rparr>))"
    and 2: "set x = ((set (group_permissions d)
                         \<union> resolved d g (marked True calls - set (group_permission_strings d g)))
                        - resolved d g ((marked False calls - marked True calls)
                                          \<inter> set (group_permission_strings d g)))
                     \<union> resolved d g (inherit_strings (set (group_permission_strings d g))
                          RULESET_CHANGE_INHERIT actions)"
    unfolding calls_def actions_def by blast
  show ?thesis
    using 1 2 unfolding DG unfolding A G
    by (intro exI [of _ x]) (simp add: resolved_empty)
qed

lemma build_pass:
  fixes x :: "(gid \<times> Permission) list"
  defines "A \<equiv> {''part.view_part'', ''part.view_partcategory'', ''part.view_bomitem'',
        ''part.view_bomitemsubstitute'', ''build.view_build'', ''build.view_builditem'',
        ''build.view_buildline'', ''stock.view_stockitem'', ''stock.view_stocklocation''}"
  assumes G: "set (group_permission_strings (build_view_db\<lparr>group_permissions := x\<rparr>) 1) = G"
    and sub: "G \<subseteq> A"
    and found: "\<forall>s \<in> (A - G) \<union> inherit_strings G RULESET_CHANGE_INHERIT [''view'', ''change'', ''add'', ''delete''].
                  \<forall>e. get_permission_object build_view_db s \<noteq> Inl e"
  shows "\<exists>x'. update_group_roles group_save (build_view_db\<lparr>group_permissions := x\<rparr>) 1
                 = Some (Inr (build_view_db\<lparr>group_permissions := x'\<rparr>))
           \<and> set x' = set x \<union> resolved build_view_db 1 (A - G)
                         \<union> resolved build_view_db 1
                             (inherit_strings G RULESET_CHANGE_INHERIT [''view'', ''change'', ''add'', ''delete''])"
proof -
  let ?d = "build_view_db\<lparr>group_permissions := x\<rparr>"
  have multi: "site_multi ?d = False" and access: "can_access_database ?d"
    by (simp_all add: build_view_db_def part_tables_db_def example_db_def)
  have A: "marked True (pass_calls (site_multi ?d) (rulesets_of ?d 1) RULESET_NAMES) = A"
    unfolding multi A_def by (rule build_allowed)
  have f: "\<forall>s \<in> (A - G) \<union> inherit_strings G RULESET_CHANGE_INHERIT [''view'', ''change'', ''add'', ''delete''].
             \<forall>e. get_permission_object ?d s \<noteq> Inl e"
    using found by (simp add: get_permission_object_frame)
  from pass_keeps_held [OF access build_hits A G sub f, of group_save] show ?thesis
    by (simp add: resolved_frame)
qed

lemma build_found:
  "get_permission_object build_view_db ''part.view_part'' = Inr (Some (part_permission ''view'' ''part''))"
  "get_permission_object build_view_db ''part.view_partparameter''
     = Inr (Some (part_permission ''view'' ''partparameter''))"
  "get_permission_object build_view_db ''part.view_partcategory'' = Inr None"
  "get_permission_object build_view_db ''part.view_bomitem'' = Inr None"
  "get_permission_object build_view_db ''part.view_bomitemsubstitute'' = Inr None"
  "get_permission_object build_view_db ''build.view_build'' = Inr None"
  "get_permission_object build_view_db ''build.view_builditem'' = Inr None"
  "get_permission_object build_view_db ''build.view_buildline'' = Inr None"
  "get_permission_object build_view_db ''stock.view_stockitem'' = Inr None"
  "get_permission_object build_view_db ''stock.view_stocklocation'' = Inr None"
  by (simp_all add: get_permission_object_def split_permission_def build_view_db_def
      part_tables_db_def example_db_def part_permission_def)

lemma inherit_strings_none:
  "inherit_strings {} pairs actions = {}"
  by (simp add: inherit_strings_def)

lemma inherit_strings_code:
  "inherit_strings G pairs actions =
     set (concat (map (\<lambda>pair. concat (map (\<lambda>action.
            if fst pair @ ''.'' @ action @ ''_'' @ fst pair \<in> G
               \<and> fst pair @ ''.'' @ action @ ''_'' @ snd pair \<notin> G
            then [fst pair @ ''.'' @ action @ ''_'' @ snd pair] else []) actions)) pairs))"
  by (auto simp: inherit_strings_def split: if_splits) blast+

lemma inherit_strings_view_part:
  "inherit_strings {''part.view_part''} RULESET_CHANGE_INHERIT [''view'', ''change'', ''add'', ''delete'']
     = {''part.view_partparameter'', ''part.view_bomitem''}"
  by (simp add: inherit_strings_code RULESET_CHANGE_INHERIT_def)

lemma build_first_pass:
  "\<exists>x1. update_group_roles group_save build_view_db 1
            = Some (Inr (build_view_db\<lparr>group_permissions := x1\<rparr>))
        \<and> set x1 = {(1, part_permission ''view'' ''part'')}"
proof -
  have e: "build_view_db\<lparr>group_permissions := []\<rparr> = build_view_db"
    by (simp add: build_view_db_def part_tables_db_def example_db_def)
  have G: "set (group_permission_strings (build_view_db\<lparr>group_permissions := []\<rparr>) 1) = {}"
    by (simp add: group_permission_strings_set)
  from build_pass [OF G, of group_save] show ?thesis
    by (simp add: e inherit_strings_none resolved_insert resolved_empty build_found)
qed

lemma build_second_pass:
  assumes "set x1 = {(1, part_permission ''view'' ''part'')}"
  shows "\<exists>x2. update_group_roles group_save (build_view_db\<lparr>group_permissions := x1\<rparr>) 1
            = Some (Inr (build_view_db\<lparr>group_permissions := x2\<rparr>))
        \<and> set x2 = {(1, part_permission ''view'' ''part''), (1, part_permission ''view'' ''partparameter'')}"
proof -
  have G: "set (group_permission_strings (build_view_db\<lparr>group_permissions := x1\<rparr>) 1)
             = {''part.view_part''}"
    by (simp add: group_permission_strings_set assms part_permission_def)
  from build_pass [OF G, of group_save] show ?thesis
    by (simp add: assms inherit_strings_view_part resolved_insert resolved_empty build_found
        insert_commute)
qed

text \<open>
  C4: \<^verbatim>\<open>update_group_roles\<close> called twice in a row, with no write in between, should change
  nothing the second time. It does: group 1 holds no permission, and of its rule sets only
  \<^verbatim>\<open>build\<close> grants view. The first call adds \<^verbatim>\<open>part.view_part\<close>, the only permission of the
  models of \<^verbatim>\<open>build\<close> that exists. The inheritance step reads the set of permission strings
  that was collected before anything was added, so in the first call it finds no parent
  permission; the second call finds \<^verbatim>\<open>part.view_part\<close> there and adds
  \<^verbatim>\<open>part.view_partparameter\<close>.
\<close>

theorem reconcile_twice_differs:
  "(case update_group_roles (Group_save 1) build_view_db 1 of
      Some (Inr d1) \<Rightarrow>
        set (group_permission_strings d1 1) = {''part.view_part''}
        \<and> (case update_group_roles (Group_save 1) d1 1 of
              Some (Inr d2) \<Rightarrow>
                set (group_permission_strings d2 1) = {''part.view_part'', ''part.view_partparameter''}
            | _ \<Rightarrow> False)
    | _ \<Rightarrow> False)"
proof -
  from build_first_pass [of "Group_save 1"] obtain x1 where
    1: "update_group_roles (Group_save 1) build_view_db 1
          = Some (Inr (build_view_db\<lparr>group_permissions := x1\<rparr>))"
    and s1: "set x1 = {(1, part_permission ''view'' ''part'')}"
    by blast
  from build_second_pass [OF s1, of "Group_save 1"] obtain x2 where
    2: "update_group_roles (Group_save 1) (build_view_db\<lparr>group_permissions := x1\<rparr>) 1
          = Some (Inr (build_view_db\<lparr>group_permissions := x2\<rparr>))"
    and s2: "set x2 = {(1, part_permission ''view'' ''part''), (1, part_permission ''view'' ''partparameter'')}"
    by blast
  have g1: "set (group_permission_strings (build_view_db\<lparr>group_permissions := x1\<rparr>) 1)
              = {''part.view_part''}"
    by (simp add: group_permission_strings_set s1 part_permission_def)
  have "{p. p = part_permission ''view'' ''part'' \<or> p = part_permission ''view'' ''partparameter''}
          = {part_permission ''view'' ''part'', part_permission ''view'' ''partparameter''}"
    by auto
  then have g2: "set (group_permission_strings (build_view_db\<lparr>group_permissions := x2\<rparr>) 1)
              = {''part.view_part'', ''part.view_partparameter''}"
    by (simp add: group_permission_strings_set s2 part_permission_def)
  show ?thesis
    by (simp only: 1 2 g1 g2 option.case sum.case simp_thms)
qed

end
